theory Spec2Isabelle
  imports Main "HOL-Library.Product_Lexorder"
begin

section \<open>Data model\<close>

text \<open>
  An Activity Record as the resolver reads it: the document id, the installation type it
  belongs to, its category and activity name, the \<open>applies\<close> flag and the forward edges
  \<open>dependentActivities\<close>. The field may be missing on a stored document
  (\<open>act.dependentActivities || []\<close>), hence the option. The remaining fields of a
  document (status, comment, frequency, ...) are copied and never read by the functions
  below. The field \<open>isDependent\<close> is the one that the resolver writes on the objects
  it returns; no handler of the application stores it, but a document is read with all its
  fields (\<open>{ id: doc.id, ...doc.data() }\<close>) and the import writes a document as it
  finds it in the file, so a stored record may carry the field too: \<open>None\<close> when it
  is missing, otherwise its truth value.
\<close>

record MaintenanceActivity =
  id_act :: string
  sudsTypeId :: string
  category :: string
  activityName :: string
  applies :: bool
  dependentActivities :: "string list option"
  isDependent :: "bool option"

text \<open>An installation type as the reorder protocol reads it; \<open>order\<close> may be undefined.\<close>

record SudsType =
  id_suds :: string
  order :: "nat option"

text \<open>
  What ends a call without a result: a \<open>TypeError\<close> raised by the host language, or, in
  the model of a recursion, the fuel running out.
\<close>

datatype failure = TypeError | OutOfFuel

section \<open>Helpers of the host language\<close>

text \<open>\<open>Array.prototype.indexOf\<close>: the first position of the element, or \<open>-1\<close>.\<close>

fun indexOf :: "'a list \<Rightarrow> 'a \<Rightarrow> int" where
  "indexOf [] x = - 1"
| "indexOf (y # ys) x =
     (if y = x then 0 else (let i = indexOf ys x in if i < 0 then - 1 else i + 1))"

text \<open>
  \<open>definedActivityNames\<close> is a plain object used as a dictionary. A key with no entry of
  its own is looked up on \<open>Object.prototype\<close>, whose properties are these. Each of them
  holds a function, and \<open>__proto__\<close> the prototype object itself: truthy values that are
  not arrays and have no \<open>indexOf\<close> method.
\<close>

definition objectPrototypeNames :: "string list" where
  "objectPrototypeNames =
     [''constructor'', ''__defineGetter__'', ''__defineSetter__'', ''hasOwnProperty'',
      ''__lookupGetter__'', ''__lookupSetter__'', ''isPrototypeOf'', ''propertyIsEnumerable'',
      ''toString'', ''valueOf'', ''__proto__'', ''toLocaleString'']"

text \<open>
  \<open>(definedActivityNames[category] || []).indexOf(activityName)\<close>: the index in the
  entry of the category, \<open>-1\<close> in the empty array that stands in for a missing entry,
  and a \<open>TypeError\<close> when the lookup yields an inherited property instead of an array.
\<close>

definition activityIndex :: "(string \<rightharpoonup> string list) \<Rightarrow> string \<Rightarrow> string \<Rightarrow> failure + int" where
  "activityIndex definedActivityNames c name =
     (case definedActivityNames c of
        Some activityNamesForCategory \<Rightarrow> Inr (indexOf activityNamesForCategory name)
      | None \<Rightarrow> if c \<in> set objectPrototypeNames then Inl TypeError else Inr (indexOf [] name))"

text \<open>
  \<open>Array.prototype.sort(compareFn)\<close>, which is stable: elements are inserted from the
  right, and an element stops in front of the first one that the comparator does not put
  before it. An exception raised by the comparator ends the sort. Which pairs an engine
  compares is its own choice; where no comparison raises, every stable sort returns the same
  list.
\<close>

fun insertWith :: "('a \<Rightarrow> 'a \<Rightarrow> failure + int) \<Rightarrow> 'a \<Rightarrow> 'a list \<Rightarrow> failure + 'a list" where
  "insertWith cmp x [] = Inr [x]"
| "insertWith cmp x (y # ys) =
     (case cmp x y of
        Inl e \<Rightarrow> Inl e
      | Inr c \<Rightarrow>
          if c \<le> 0 then Inr (x # y # ys)
          else (case insertWith cmp x ys of Inl e \<Rightarrow> Inl e | Inr zs \<Rightarrow> Inr (y # zs)))"

fun sortWith :: "('a \<Rightarrow> 'a \<Rightarrow> failure + int) \<Rightarrow> 'a list \<Rightarrow> failure + 'a list" where
  "sortWith cmp [] = Inr []"
| "sortWith cmp (x # xs) =
     (case sortWith cmp xs of Inl e \<Rightarrow> Inl e | Inr ys \<Rightarrow> insertWith cmp x ys)"

section \<open>Activity graph resolver\<close>

text \<open>\<open>activity.dependentActivities || []\<close>\<close>

definition dependentsOrEmpty :: "MaintenanceActivity \<Rightarrow> string list" where
  "dependentsOrEmpty act = (case dependentActivities act of None \<Rightarrow> [] | Some ds \<Rightarrow> ds)"

text \<open>
  The comparator passed to both \<open>sort\<close> calls of \<open>getDisplayActivities\<close>. The two
  lookups in \<open>definedActivityNames\<close> are only reached when the category indices are equal.
\<close>

definition compareActivities ::
  "string list \<Rightarrow> (string \<rightharpoonup> string list) \<Rightarrow> MaintenanceActivity \<Rightarrow> MaintenanceActivity
     \<Rightarrow> failure + int" where
  "compareActivities categories definedActivityNames a b =
     (let categoryAIndex = indexOf categories (category a);
          categoryBIndex = indexOf categories (category b)
      in if categoryAIndex \<noteq> categoryBIndex then Inr (categoryAIndex - categoryBIndex)
         else
           (case activityIndex definedActivityNames (category a) (activityName a) of
              Inl e \<Rightarrow> Inl e
            | Inr activityIndexA \<Rightarrow>
                (case activityIndex definedActivityNames (category b) (activityName b) of
                   Inl e \<Rightarrow> Inl e
                 | Inr activityIndexB \<Rightarrow> Inr (activityIndexA - activityIndexB))))"

text \<open>The mutable locals of \<open>getDisplayActivities\<close> that the recursive walk updates.\<close>

record walk =
  processedActivityIds :: "string set"
  displayedOrder :: "(MaintenanceActivity \<times> bool) list"

text \<open>\<open>new Map(sudsActivities.map(act => [act.id, act]))\<close>: a later entry replaces an earlier one.\<close>

definition activityMapOf :: "MaintenanceActivity list \<Rightarrow> (string \<rightharpoonup> MaintenanceActivity)" where
  "activityMapOf sudsActivities = fold (\<lambda>act m. m(id_act act \<mapsto> act)) sudsActivities Map.empty"

definition allDependentIdsOf :: "MaintenanceActivity list \<Rightarrow> string set" where
  "allDependentIdsOf sudsActivities = set (concat (map dependentsOrEmpty sudsActivities))"

text \<open>
  The argument object of a call of \<open>addActivityAndDependents\<close> is either a stored
  record itself (the top-level calls, \<open>topLevelActivities.forEach(addActivityAndDependents)\<close>)
  or the copy \<open>{ ...depAct, isDependent: true }\<close> of one (the calls for dependents). The
  model passes the stored record and, as \<open>markedDependent\<close>, the value that the copy
  gives to the field: \<open>None\<close> for a top-level call, \<open>Some True\<close> for a dependent.
  This is \<open>activity.isDependent || false\<close> read on that argument object.
\<close>

definition isDependentOrFalse :: "MaintenanceActivity \<Rightarrow> bool option \<Rightarrow> bool" where
  "isDependentOrFalse activity markedDependent =
     (case markedDependent of
        Some b \<Rightarrow> b
      | None \<Rightarrow> (case isDependent activity of None \<Rightarrow> False | Some b \<Rightarrow> b))"

text \<open>
  \<open>addActivityAndDependents\<close>. The recursion of the source is bounded here by a fuel
  argument (the nesting depth that is still allowed); running out of fuel is
  \<open>Inl OutOfFuel\<close>. The entry pushed is the pair of the record and of the flag
  \<open>activity.isDependent || false\<close>; it stands for the object
  \<open>{ ...activity, isDependent: flag }\<close>. The record is pushed before its dependents are
  resolved and sorted, and an exception raised in that sort leaves the whole call.
\<close>

fun addActivityAndDependents ::
  "nat \<Rightarrow> string list \<Rightarrow> (string \<rightharpoonup> string list) \<Rightarrow> (string \<rightharpoonup> MaintenanceActivity)
     \<Rightarrow> MaintenanceActivity \<Rightarrow> bool option \<Rightarrow> walk \<Rightarrow> failure + walk" where
  "addActivityAndDependents 0 categories definedActivityNames activityMap activity markedDependent w =
     Inl OutOfFuel"
| "addActivityAndDependents (Suc fuel) categories definedActivityNames activityMap activity markedDependent w =
     (if id_act activity \<in> processedActivityIds w then Inr w
      else
        (let w1 = w\<lparr>displayedOrder := displayedOrder w @
                       [(activity, isDependentOrFalse activity markedDependent)],
                     processedActivityIds := insert (id_act activity) (processedActivityIds w)\<rparr>
         in case sortWith (compareActivities categories definedActivityNames)
                   (List.map_filter activityMap (dependentsOrEmpty activity)) of
              Inl e \<Rightarrow> Inl e
            | Inr sortedDependents \<Rightarrow>
                fold (\<lambda>depAct r. case r of Inl e \<Rightarrow> Inl e
                        | Inr w' \<Rightarrow> addActivityAndDependents fuel categories definedActivityNames
                                       activityMap depAct (Some True) w')
                  sortedDependents (Inr w1)))"

text \<open>
  \<open>getDisplayActivities\<close> with the fuel of the walk as a parameter. The top-level
  records are sorted before the walk starts.
\<close>

definition getDisplayActivities_fuel ::
  "nat \<Rightarrow> string \<Rightarrow> MaintenanceActivity list \<Rightarrow> string list \<Rightarrow> (string \<rightharpoonup> string list)
     \<Rightarrow> failure + (MaintenanceActivity \<times> bool) list" where
  "getDisplayActivities_fuel fuel sudsId allMaintenanceActivities categories definedActivityNames =
     (let sudsActivities =
            filter (\<lambda>act. sudsTypeId act = sudsId \<and> applies act) allMaintenanceActivities;
          activityMap = activityMapOf sudsActivities;
          allDependentIds = allDependentIdsOf sudsActivities
      in case sortWith (compareActivities categories definedActivityNames)
                (filter (\<lambda>act. id_act act \<notin> allDependentIds) sudsActivities) of
           Inl e \<Rightarrow> Inl e
         | Inr topLevelActivities \<Rightarrow>
             (case fold (\<lambda>act r. case r of Inl e \<Rightarrow> Inl e
                           | Inr w \<Rightarrow> addActivityAndDependents fuel categories
                                         definedActivityNames activityMap act None w)
                     topLevelActivities
                     (Inr \<lparr>processedActivityIds = {}, displayedOrder = []\<rparr>) of
                Inl e \<Rightarrow> Inl e
              | Inr w \<Rightarrow> Inr (displayedOrder w)))"

text \<open>
  \<open>getDisplayActivities\<close>. The walk gets one unit of fuel more than there are applicable
  records of the installation type.
\<close>

definition getDisplayActivities ::
  "string \<Rightarrow> MaintenanceActivity list \<Rightarrow> string list \<Rightarrow> (string \<rightharpoonup> string list)
     \<Rightarrow> failure + (MaintenanceActivity \<times> bool) list" where
  "getDisplayActivities sudsId allMaintenanceActivities categories definedActivityNames =
     getDisplayActivities_fuel
       (Suc (length (filter (\<lambda>act. sudsTypeId act = sudsId \<and> applies act) allMaintenanceActivities)))
       sudsId allMaintenanceActivities categories definedActivityNames"

text \<open>
  The first two statements of a visit: \<open>displayedOrder.push({...activity, isDependent:
  activity.isDependent || false})\<close> and \<open>processedActivityIds.add(activity.id)\<close>.
\<close>

definition pushActivity :: "MaintenanceActivity \<Rightarrow> bool option \<Rightarrow> walk \<Rightarrow> walk" where
  "pushActivity activity markedDependent w =
     w\<lparr>displayedOrder := displayedOrder w @
          [(activity, isDependentOrFalse activity markedDependent)],
       processedActivityIds := insert (id_act activity) (processedActivityIds w)\<rparr>"

text \<open>
  The local \<open>sortedDependents\<close> of a visit: the ids resolved through \<open>activityMap\<close>,
  unresolved ones dropped by \<open>filter(Boolean)\<close>, then sorted.
\<close>

definition resolvedDependents ::
  "(string \<rightharpoonup> MaintenanceActivity) \<Rightarrow> MaintenanceActivity \<Rightarrow> MaintenanceActivity list" where
  "resolvedDependents activityMap activity =
     List.map_filter activityMap (dependentsOrEmpty activity)"

definition sortedDependentsOf ::
  "string list \<Rightarrow> (string \<rightharpoonup> string list) \<Rightarrow> (string \<rightharpoonup> MaintenanceActivity)
     \<Rightarrow> MaintenanceActivity \<Rightarrow> failure + MaintenanceActivity list" where
  "sortedDependentsOf categories definedActivityNames activityMap activity =
     sortWith (compareActivities categories definedActivityNames)
       (resolvedDependents activityMap activity)"

text \<open>
  \<open>forEach(addActivityAndDependents)\<close> over a list: the walk is threaded through the
  calls, and a call that does not return a walk ends the loop with its failure.
\<close>

definition forEachAdd ::
  "nat \<Rightarrow> string list \<Rightarrow> (string \<rightharpoonup> string list) \<Rightarrow> (string \<rightharpoonup> MaintenanceActivity)
     \<Rightarrow> bool option \<Rightarrow> MaintenanceActivity list \<Rightarrow> failure + walk \<Rightarrow> failure + walk" where
  "forEachAdd fuel categories definedActivityNames activityMap markedDependent acts r =
     fold (\<lambda>act r. case r of Inl e \<Rightarrow> Inl e
             | Inr w \<Rightarrow> addActivityAndDependents fuel categories definedActivityNames
                           activityMap act markedDependent w) acts r"

text \<open>
  The locals \<open>sudsActivities\<close> and \<open>topLevelActivities\<close> of \<open>getDisplayActivities\<close>,
  and the walk it starts from.
\<close>

definition sudsActivitiesOf :: "string \<Rightarrow> MaintenanceActivity list \<Rightarrow> MaintenanceActivity list" where
  "sudsActivitiesOf sudsId allMaintenanceActivities =
     filter (\<lambda>act. sudsTypeId act = sudsId \<and> applies act) allMaintenanceActivities"

definition topLevelActivitiesOf ::
  "string list \<Rightarrow> (string \<rightharpoonup> string list) \<Rightarrow> MaintenanceActivity list
     \<Rightarrow> failure + MaintenanceActivity list" where
  "topLevelActivitiesOf categories definedActivityNames sudsActivities =
     sortWith (compareActivities categories definedActivityNames)
       (filter (\<lambda>act. id_act act \<notin> allDependentIdsOf sudsActivities) sudsActivities)"

definition emptyWalk :: walk where
  "emptyWalk = \<lparr>processedActivityIds = {}, displayedOrder = []\<rparr>"

subsection \<open>Notions used to state and prove the properties of the resolver\<close>

text \<open>
  The pair of indices the comparator looks at: the position of the category in
  \<open>categories\<close> and the position of the activity name in the list defined for that
  category, each \<open>-1\<close> when absent. Pairs are compared lexicographically.
\<close>

definition activityKey ::
  "string list \<Rightarrow> (string \<rightharpoonup> string list) \<Rightarrow> MaintenanceActivity \<Rightarrow> int \<times> int" where
  "activityKey categories definedActivityNames a =
     (indexOf categories (category a),
      indexOf (case definedActivityNames (category a) of None \<Rightarrow> [] | Some ns \<Rightarrow> ns) (activityName a))"

text \<open>
  The lookup of a category in \<open>definedActivityNames\<close> resolves when it yields an
  array or nothing: the category has an entry of its own, or it is not the name of a
  property of \<open>Object.prototype\<close>.
\<close>

definition categoryResolves :: "(string \<rightharpoonup> string list) \<Rightarrow> string \<Rightarrow> bool" where
  "categoryResolves definedActivityNames c \<longleftrightarrow>
     definedActivityNames c \<noteq> None \<or> c \<notin> set objectPrototypeNames"


text \<open>
  The records that the walk can reach: the top-level records, and the records of the
  installation type named in the \<open>dependentActivities\<close> of a reachable record.
\<close>

inductive reachableFromRoot :: "MaintenanceActivity list \<Rightarrow> MaintenanceActivity \<Rightarrow> bool"
  for S :: "MaintenanceActivity list" where
  root: "a \<in> set S \<Longrightarrow> id_act a \<notin> allDependentIdsOf S \<Longrightarrow> reachableFromRoot S a"
| dependent: "reachableFromRoot S a \<Longrightarrow> d \<in> set S \<Longrightarrow> id_act d \<in> set (dependentsOrEmpty a)
     \<Longrightarrow> reachableFromRoot S d"

code_pred reachableFromRoot .

text \<open>
  \<open>extends w w'\<close>: the walk \<open>w'\<close> continues \<open>w\<close> by appending entries with fresh,
  pairwise different ids, all of them recorded as processed.
\<close>

definition extends :: "walk \<Rightarrow> walk \<Rightarrow> bool" where
  "extends w w' \<longleftrightarrow>
     (\<exists>new. displayedOrder w' = displayedOrder w @ new \<and>
        processedActivityIds w' = processedActivityIds w \<union> (id_act \<circ> fst) ` set new \<and>
        distinct (map (id_act \<circ> fst) new) \<and>
        (id_act \<circ> fst) ` set new \<inter> processedActivityIds w = {})"

text \<open>
  \<open>closedSince am w w'\<close>: every entry added between \<open>w\<close> and \<open>w'\<close> has all its
  resolved dependents processed in \<open>w'\<close>.
\<close>

definition closedSince :: "(string \<rightharpoonup> MaintenanceActivity) \<Rightarrow> walk \<Rightarrow> walk \<Rightarrow> bool" where
  "closedSince am w w' \<longleftrightarrow>
     processedActivityIds w \<subseteq> processedActivityIds w' \<and>
     (\<forall>e \<in> set (displayedOrder w'). e \<notin> set (displayedOrder w) \<longrightarrow>
        (\<forall>d \<in> set (resolvedDependents am (fst e)). id_act d \<in> processedActivityIds w'))"

section \<open>Ordered-collection reorder protocol\<close>

text \<open>\<open>Array.prototype.findIndex\<close>: the first position whose element satisfies the predicate, or \<open>-1\<close>.\<close>

fun findIndex :: "('a \<Rightarrow> bool) \<Rightarrow> 'a list \<Rightarrow> int" where
  "findIndex p [] = - 1"
| "findIndex p (y # ys) =
     (if p y then 0 else (let i = findIndex p ys in if i < 0 then - 1 else i + 1))"

text \<open>
  An array whose elements may be \<open>undefined\<close> (\<open>None\<close>). Reading outside the
  elements yields \<open>undefined\<close>; writing at a negative index only sets a property of the
  array object and leaves the elements as they are; writing past the end extends the array.
\<close>

definition arrayGet :: "'a option list \<Rightarrow> int \<Rightarrow> 'a option" where
  "arrayGet xs i = (if 0 \<le> i \<and> i < int (length xs) then xs ! nat i else None)"

definition arraySet :: "'a option list \<Rightarrow> int \<Rightarrow> 'a option \<Rightarrow> 'a option list" where
  "arraySet xs i v =
     (if i < 0 then xs
      else if i < int (length xs) then xs[nat i := v]
      else xs @ replicate (nat i - length xs) None @ [v])"

text \<open>
  The destructuring swap \<open>[arr[i], arr[j]] = [arr[j], arr[i]]\<close>: both reads happen
  before the two writes, which are done left to right.
\<close>

definition swapElements :: "'a option list \<Rightarrow> int \<Rightarrow> int \<Rightarrow> 'a option list" where
  "swapElements arr i j =
     (let right = [arrayGet arr j, arrayGet arr i]
      in arraySet (arraySet arr i (right ! 0)) j (right ! 1))"

text \<open>The writes that \<open>handleMoveSudsType\<close> puts into its batch: \<open>(id, order)\<close> pairs.\<close>

fun orderUpdates :: "nat \<Rightarrow> SudsType list \<Rightarrow> (string \<times> nat) list" where
  "orderUpdates index [] = []"
| "orderUpdates index (suds # rest) =
     (if order suds \<noteq> Some index \<or> order suds = None
      then (id_suds suds, index) # orderUpdates (Suc index) rest
      else orderUpdates (Suc index) rest)"

text \<open>
  \<open>handleMoveSudsType\<close> up to the commit: \<open>None\<close> is one of the two early returns,
  otherwise the new sequence and the batch handed to the persistence layer. The swaps are
  made on the copy \<open>[...currentSudsTypes]\<close>, and both stay inside the array, by the
  guards in front of them.
\<close>

definition handleMoveSudsType_batch ::
  "string \<Rightarrow> string \<Rightarrow> SudsType list \<Rightarrow> (SudsType list \<times> (string \<times> nat) list) option" where
  "handleMoveSudsType_batch sudsId direction currentSudsTypes =
     (let currentIndex = findIndex (\<lambda>s. id_suds s = sudsId) currentSudsTypes
      in if currentIndex = - 1 then None
         else
           (let newSudsTypesOrder = currentSudsTypes
            in if direction = ''up'' \<and> currentIndex > 0 then
                 (let swapped = newSudsTypesOrder
                        [nat (currentIndex - 1) := newSudsTypesOrder ! nat currentIndex,
                         nat currentIndex := newSudsTypesOrder ! nat (currentIndex - 1)]
                  in Some (swapped, orderUpdates 0 swapped))
               else if direction = ''down'' \<and> currentIndex < int (length newSudsTypesOrder) - 1 then
                 (let swapped = newSudsTypesOrder
                        [nat (currentIndex + 1) := newSudsTypesOrder ! nat currentIndex,
                         nat currentIndex := newSudsTypesOrder ! nat (currentIndex + 1)]
                  in Some (swapped, orderUpdates 0 swapped))
               else None))"

text \<open>
  \<open>handleMoveCategory\<close> up to the write: \<open>None\<close> is the early return, otherwise the
  array passed to \<open>setDoc\<close> as the new \<open>categories\<close> field.
\<close>

definition handleMoveCategory_write ::
  "string \<Rightarrow> string \<Rightarrow> string list \<Rightarrow> string option list option" where
  "handleMoveCategory_write categoryToMove direction categories =
     (let currentIndex = indexOf categories categoryToMove;
          newCategories = map Some categories
      in if direction = ''up'' \<and> currentIndex > 0 then
           Some (swapElements newCategories (currentIndex - 1) currentIndex)
         else if direction = ''down'' \<and> currentIndex < int (length newCategories) - 1 then
           Some (swapElements newCategories (currentIndex + 1) currentIndex)
         else None)"

text \<open>
  \<open>handleMoveActivityColumn\<close> up to the write: \<open>Inr None\<close> is the early return,
  otherwise the whole map passed to \<open>setDoc\<close>. The lookup
  \<open>currentDefinedActivityNames[category] || []\<close> is the one of the comparator: for a
  category with no entry of its own and the name of a property of \<open>Object.prototype\<close>
  the call of \<open>indexOf\<close> raises a \<open>TypeError\<close>.
\<close>

definition handleMoveActivityColumn_write ::
  "string \<Rightarrow> string \<Rightarrow> string \<Rightarrow> (string \<rightharpoonup> string list)
     \<Rightarrow> failure + (string \<rightharpoonup> string option list) option" where
  "handleMoveActivityColumn_write =
     (\<lambda>category activityName direction currentDefinedActivityNames.
      if currentDefinedActivityNames category = None \<and> category \<in> set objectPrototypeNames
      then Inl TypeError
      else
        (let currentCategoryActivities =
               (case currentDefinedActivityNames category of None \<Rightarrow> [] | Some ns \<Rightarrow> ns);
             currentIndex = indexOf currentCategoryActivities activityName;
             newActivities = map Some currentCategoryActivities
         in if direction = ''left'' \<and> currentIndex > 0 then
              Inr (Some ((map_option (map Some) \<circ> currentDefinedActivityNames)
                      (category \<mapsto> swapElements newActivities (currentIndex - 1) currentIndex)))
            else if direction = ''right'' \<and> currentIndex < int (length newActivities) - 1 then
              Inr (Some ((map_option (map Some) \<circ> currentDefinedActivityNames)
                      (category \<mapsto> swapElements newActivities (currentIndex + 1) currentIndex)))
            else Inr None))"

text \<open>
  The later copy of \<open>handleMoveSudsType\<close> in the sources puts a role guard in front of the
  same body: \<open>if (userRole === ROLES.READER) return;\<close> with \<open>ROLES.READER = 'Lector'\<close>.
\<close>

definition handleMoveSudsType_batch_guarded ::
  "string \<Rightarrow> string \<Rightarrow> string \<Rightarrow> SudsType list \<Rightarrow> (SudsType list \<times> (string \<times> nat) list) option" where
  "handleMoveSudsType_batch_guarded userRole sudsId direction currentSudsTypes =
     (if userRole = ''Lector'' then None
      else handleMoveSudsType_batch sudsId direction currentSudsTypes)"

section \<open>Persistence and the handlers' effects\<close>

text \<open>
  Modelled from the spec: the persistence layer (the document store behind \<open>writeBatch\<close>,
  \<open>batch.commit\<close> and \<open>setDoc\<close>) is an external collaborator whose code is not in the
  sources. The spec gives its interface as \<open>executeBatch(list of write operations) ->
  success|failure\<close>, atomic all-or-nothing. Whether the layer rejects a request is its own
  decision, a parameter here: \<open>rejection\<close> is the error message of a refused request.
\<close>

definition executeBatch :: "string option \<Rightarrow> ('s \<Rightarrow> 's) \<Rightarrow> 's \<Rightarrow> string + 's" where
  "executeBatch rejection writes stored =
     (case rejection of Some message \<Rightarrow> Inl message | None \<Rightarrow> Inr (writes stored))"

text \<open>
  The state around the reorder handlers: the three persisted documents or collections, the
  in-memory copies that the live subscriptions maintain, and the modal that
  \<open>showCustomModal\<close> sets.
\<close>

record app =
  sudsTypesCollection :: "string \<rightharpoonup> SudsType"
  maintenanceCategoriesDoc :: "string option list"
  definedActivityNamesDoc :: "string \<rightharpoonup> string option list"
  sudsTypesState :: "SudsType list"
  categoriesState :: "string list"
  definedActivityNamesState :: "string \<rightharpoonup> string list"
  modalMessage :: "string option"

text \<open>\<open>batch.update(doc(db, .../sudsTypes, suds.id), { order: index })\<close>\<close>

definition applyOrderUpdate :: "string \<times> nat \<Rightarrow> (string \<rightharpoonup> SudsType) \<Rightarrow> (string \<rightharpoonup> SudsType)" where
  "applyOrderUpdate u coll =
     (case coll (fst u) of None \<Rightarrow> coll | Some d \<Rightarrow> coll(fst u \<mapsto> d\<lparr>order := Some (snd u)\<rparr>))"

definition handleMoveSudsType ::
  "string option \<Rightarrow> string \<Rightarrow> string \<Rightarrow> SudsType list \<Rightarrow> app \<Rightarrow> app" where
  "handleMoveSudsType rejection sudsId direction currentSudsTypes a =
     (case handleMoveSudsType_batch sudsId direction currentSudsTypes of
        None \<Rightarrow> a
      | Some (newSudsTypesOrder, batch) \<Rightarrow>
          (case executeBatch rejection (fold applyOrderUpdate batch) (sudsTypesCollection a) of
             Inr stored \<Rightarrow> a\<lparr>sudsTypesCollection := stored\<rparr>
           | Inl message \<Rightarrow>
               a\<lparr>modalMessage := Some (''Error al mover el tipo de SUDS: '' @ message)\<rparr>))"

text \<open>
  The later copy of \<open>handleMoveSudsType\<close>: the role guard, then the body of the first
  copy.
\<close>

definition handleMoveSudsType_guarded ::
  "string option \<Rightarrow> string \<Rightarrow> string \<Rightarrow> string \<Rightarrow> SudsType list \<Rightarrow> app \<Rightarrow> app" where
  "handleMoveSudsType_guarded rejection userRole sudsId direction currentSudsTypes a =
     (if userRole = ''Lector'' then a
      else handleMoveSudsType rejection sudsId direction currentSudsTypes a)"

text \<open>
  \<open>handleMoveCategory\<close> reads \<open>categories\<close> from the component state. The two
  non-ASCII letters of its messages are written as their UTF-8 bytes.
\<close>

definition handleMoveCategory :: "string option \<Rightarrow> string \<Rightarrow> string \<Rightarrow> app \<Rightarrow> app" where
  "handleMoveCategory rejection categoryToMove direction a =
     (case handleMoveCategory_write categoryToMove direction (categoriesState a) of
        None \<Rightarrow> a
      | Some newCategories \<Rightarrow>
          (case executeBatch rejection (\<lambda>_. newCategories) (maintenanceCategoriesDoc a) of
             Inr stored \<Rightarrow>
               a\<lparr>maintenanceCategoriesDoc := stored,
                 modalMessage := Some (''Categor'' @ [CHR 0xC3, CHR 0xAD] @ ''a '' @ [CHR 0x22]
                                       @ categoryToMove @ [CHR 0x22] @ '' movida.'')\<rparr>
           | Inl message \<Rightarrow>
               a\<lparr>modalMessage := Some (''Error al mover la categor'' @ [CHR 0xC3, CHR 0xAD]
                                       @ ''a: '' @ message)\<rparr>))"

text \<open>
  \<open>handleMoveActivityColumn\<close>. The lookup and the swap stand in front of the
  \<open>try\<close> block: a \<open>TypeError\<close> raised there leaves the handler.
\<close>

definition handleMoveActivityColumn ::
  "string option \<Rightarrow> string \<Rightarrow> string \<Rightarrow> string \<Rightarrow> (string \<rightharpoonup> string list) \<Rightarrow> app
     \<Rightarrow> failure + app" where
  "handleMoveActivityColumn =
     (\<lambda>rejection category activityName direction currentDefinedActivityNames a.
      case handleMoveActivityColumn_write category activityName direction currentDefinedActivityNames of
        Inl e \<Rightarrow> Inl e
      | Inr None \<Rightarrow> Inr a
      | Inr (Some updatedDefinedActivities) \<Rightarrow>
          (case executeBatch rejection (\<lambda>_. updatedDefinedActivities) (definedActivityNamesDoc a) of
             Inr stored \<Rightarrow> Inr (a\<lparr>definedActivityNamesDoc := stored\<rparr>)
           | Inl message \<Rightarrow>
               Inr (a\<lparr>modalMessage := Some (''Error al mover la actividad: '' @ message)\<rparr>)))"

section \<open>Saving dependencies\<close>

text \<open>\<open>String.prototype.split\<close> with a one-character separator.\<close>

fun splitOn :: "char \<Rightarrow> string \<Rightarrow> string list" where
  "splitOn sep [] = [[]]"
| "splitOn sep (c # cs) =
     (if c = sep then [] # splitOn sep cs
      else (case splitOn sep cs of [] \<Rightarrow> [[c]] | p # ps \<Rightarrow> (c # p) # ps))"

text \<open>\<open>currentActivityForDependencies\<close>: \<open>id\<close> is \<open>activity?.id\<close> and may be undefined.\<close>

record currentActivity =
  cur_sudsId :: string
  cur_activityName :: string
  cur_category :: string
  cur_id :: "string option"

text \<open>
  The writes that \<open>handleSaveDependencies\<close> puts into its batch. \<open>SetNew\<close> is
  \<open>batch.set(doc(collection(...)), data)\<close>: the document reference is created with an
  automatically generated id, which the record carries here.
\<close>

datatype batchWrite =
    UpdateDependentActivities string "string list"
  | UpdateApplies string
  | SetNew MaintenanceActivity

text \<open>
  The loop over \<open>selectedDependencies\<close>. \<open>autoId\<close> is the supply of generated document
  ids and \<open>n\<close> the number of ids already drawn.
\<close>

fun dependentWrites ::
  "(nat \<Rightarrow> string) \<Rightarrow> nat \<Rightarrow> string list \<Rightarrow> MaintenanceActivity list \<Rightarrow> batchWrite list" where
  "dependentWrites autoId n [] maintenanceActivities = []"
| "dependentWrites autoId n (depId # rest) maintenanceActivities =
     (case find (\<lambda>act. id_act act = depId) maintenanceActivities of
        Some dependentActivity \<Rightarrow>
          (if \<not> applies dependentActivity
           then UpdateApplies depId # dependentWrites autoId n rest maintenanceActivities
           else dependentWrites autoId n rest maintenanceActivities)
      | None \<Rightarrow>
          (let parts = splitOn CHR ''-'' depId
           in if length parts = 3
              then SetNew \<lparr>id_act = autoId n, sudsTypeId = parts ! 0, category = parts ! 1,
                           activityName = parts ! 2, applies = True,
                           dependentActivities = Some [], isDependent = None\<rparr>
                     # dependentWrites autoId (Suc n) rest maintenanceActivities
              else dependentWrites autoId n rest maintenanceActivities))"

definition handleSaveDependencies_batch ::
  "(nat \<Rightarrow> string) \<Rightarrow> currentActivity option \<Rightarrow> string list \<Rightarrow> MaintenanceActivity list
     \<Rightarrow> batchWrite list option" where
  "handleSaveDependencies_batch autoId currentActivityForDependencies selectedDependencies
       maintenanceActivities =
     (case currentActivityForDependencies of
        None \<Rightarrow> None
      | Some cur \<Rightarrow>
          (case cur_id cur of
             Some primaryId \<Rightarrow>
               Some (UpdateDependentActivities primaryId selectedDependencies
                       # dependentWrites autoId 0 selectedDependencies maintenanceActivities)
           | None \<Rightarrow>
               Some (SetNew \<lparr>id_act = autoId 0, sudsTypeId = cur_sudsId cur,
                              category = cur_category cur, activityName = cur_activityName cur,
                              applies = True, dependentActivities = Some selectedDependencies,
                              isDependent = None\<rparr>
                       # dependentWrites autoId 1 selectedDependencies maintenanceActivities)))"

definition applyWrite ::
  "batchWrite \<Rightarrow> (string \<rightharpoonup> MaintenanceActivity) \<Rightarrow> (string \<rightharpoonup> MaintenanceActivity)" where
  "applyWrite wr coll =
     (case wr of
        UpdateDependentActivities i deps \<Rightarrow>
          (case coll i of None \<Rightarrow> coll | Some d \<Rightarrow> coll(i \<mapsto> d\<lparr>dependentActivities := Some deps\<rparr>))
      | UpdateApplies i \<Rightarrow>
          (case coll i of None \<Rightarrow> coll | Some d \<Rightarrow> coll(i \<mapsto> d\<lparr>applies := True\<rparr>))
      | SetNew d \<Rightarrow> coll(id_act d \<mapsto> d))"

text \<open>
  \<open>handleSaveDependencies\<close>: the stored collection after the call and the modal it shows.
\<close>

definition handleSaveDependencies ::
  "string option \<Rightarrow> (nat \<Rightarrow> string) \<Rightarrow> currentActivity option \<Rightarrow> string list
     \<Rightarrow> MaintenanceActivity list \<Rightarrow> (string \<rightharpoonup> MaintenanceActivity)
     \<Rightarrow> (string \<rightharpoonup> MaintenanceActivity) \<times> string option" where
  "handleSaveDependencies rejection autoId currentActivityForDependencies selectedDependencies
       maintenanceActivities coll =
     (case handleSaveDependencies_batch autoId currentActivityForDependencies selectedDependencies
             maintenanceActivities of
        None \<Rightarrow> (coll, None)
      | Some batch \<Rightarrow>
          (case executeBatch rejection (fold applyWrite batch) coll of
             Inr stored \<Rightarrow>
               (stored, Some (''Dependencias de actividad guardadas con '' @ [CHR 0xC3, CHR 0xA9]
                              @ ''xito.''))
           | Inl message \<Rightarrow> (coll, Some (''Error al guardar las dependencias: '' @ message))))"

section \<open>Concrete inputs\<close>

text \<open>
  Records, orders and states used to run the definitions on explicit inputs.
\<close>

definition exActivity :: "string \<Rightarrow> string \<Rightarrow> string \<Rightarrow> bool \<Rightarrow> string list \<Rightarrow> MaintenanceActivity" where
  "exActivity i c n ap deps =
     \<lparr>id_act = i, sudsTypeId = ''s1'', category = c, activityName = n, applies = ap,
      dependentActivities = Some deps, isDependent = None\<rparr>"

definition exCategories :: "string list" where
  "exCategories = [''Cleaning'', ''Vegetation'']"

definition exDefined :: "string \<rightharpoonup> string list" where
  "exDefined = [''Cleaning'' \<mapsto> [''Sweep'', ''Inspect''], ''Vegetation'' \<mapsto> [''Prune'']]"

definition sA :: SudsType where "sA = \<lparr>id_suds = ''A'', order = Some 0\<rparr>"

definition sB :: SudsType where "sB = \<lparr>id_suds = ''B'', order = Some 1\<rparr>"

definition sC :: SudsType where "sC = \<lparr>id_suds = ''C'', order = Some 2\<rparr>"

definition exApp :: app where
  "exApp = \<lparr>sudsTypesCollection = [''A'' \<mapsto> sA, ''B'' \<mapsto> sB, ''C'' \<mapsto> sC],
     maintenanceCategoriesDoc = [Some ''Cleaning'', Some ''Vegetation''],
     definedActivityNamesDoc = [''Cleaning'' \<mapsto> [Some ''Sweep'', Some ''Inspect'']],
     sudsTypesState = [sA, sB, sC],
     categoriesState = [''Cleaning'', ''Vegetation''],
     definedActivityNamesState = [''Cleaning'' \<mapsto> [''Sweep'', ''Inspect'']],
     modalMessage = None\<rparr>"

definition exPrimary :: MaintenanceActivity where
  "exPrimary = \<lparr>id_act = ''p1'', sudsTypeId = ''s1'', category = ''Cleaning'',
     activityName = ''Sweep'', applies = True, dependentActivities = Some [], isDependent = None\<rparr>"

definition exCurrent :: currentActivity where
  "exCurrent = \<lparr>cur_sudsId = ''s1'', cur_activityName = ''Sweep'', cur_category = ''Cleaning'',
     cur_id = Some ''p1''\<rparr>"

section \<open>Auxiliary lemmas\<close>

lemma forEachAdd_Nil [simp]: "forEachAdd fuel cs ds am f [] r = r"
  by (simp add: forEachAdd_def)

lemma forEachAdd_Inl [simp]: "forEachAdd fuel cs ds am f acts (Inl e) = Inl e"
  by (induction acts) (simp_all add: forEachAdd_def)

lemma forEachAdd_Cons [simp]:
  "forEachAdd fuel cs ds am f (a # acts) (Inr w) =
     forEachAdd fuel cs ds am f acts (addActivityAndDependents fuel cs ds am a f w)"
  by (simp add: forEachAdd_def)

lemma forEachAdd_append:
  "forEachAdd fuel cs ds am f (xs @ ys) r = forEachAdd fuel cs ds am f ys (forEachAdd fuel cs ds am f xs r)"
  by (simp add: forEachAdd_def)

lemma add_Suc:
  "addActivityAndDependents (Suc fuel) cs ds am a f w =
     (if id_act a \<in> processedActivityIds w then Inr w
      else (case sortedDependentsOf cs ds am a of
              Inl e \<Rightarrow> Inl e
            | Inr sortedDependents \<Rightarrow>
                forEachAdd fuel cs ds am (Some True) sortedDependents (Inr (pushActivity a f w))))"
  by (simp add: forEachAdd_def sortedDependentsOf_def resolvedDependents_def pushActivity_def
      Let_def split: sum.split)

declare addActivityAndDependents.simps(2) [simp del]

lemma forEachAdd_ConsD:
  assumes "forEachAdd fuel cs ds am g (x # xs) (Inr w) = Inr w'"
  shows "\<exists>w1. addActivityAndDependents fuel cs ds am x g w = Inr w1 \<and>
               forEachAdd fuel cs ds am g xs (Inr w1) = Inr w'"
  using assms by (cases "addActivityAndDependents fuel cs ds am x g w") simp_all

lemma forEachAdd_appendD:
  assumes "forEachAdd fuel cs ds am g (xs @ ys) (Inr w) = Inr w'"
  shows "\<exists>w1. forEachAdd fuel cs ds am g xs (Inr w) = Inr w1 \<and>
               forEachAdd fuel cs ds am g ys (Inr w1) = Inr w'"
proof (cases "forEachAdd fuel cs ds am g xs (Inr w)")
  case (Inl e)
  with assms show ?thesis by (simp add: forEachAdd_append)
next
  case (Inr w1)
  with assms show ?thesis by (simp add: forEachAdd_append)
qed

lemma add_visitD:
  assumes "addActivityAndDependents (Suc fuel) cs ds am a f w = Inr w'"
    and "id_act a \<notin> processedActivityIds w"
  shows "\<exists>sds. sortedDependentsOf cs ds am a = Inr sds \<and>
           forEachAdd fuel cs ds am (Some True) sds (Inr (pushActivity a f w)) = Inr w'"
  using assms by (cases "sortedDependentsOf cs ds am a") (simp_all add: add_Suc)

lemma add_rule:
  assumes run: "addActivityAndDependents fuel cs ds am a f w = Inr w'"
    and skip: "\<And>a f w. id_act a \<in> processedActivityIds w \<Longrightarrow> Q a f w w"
    and visit: "\<And>a f w w' sds. id_act a \<notin> processedActivityIds w \<Longrightarrow>
                  sortedDependentsOf cs ds am a = Inr sds \<Longrightarrow>
                  R (Some True) sds (pushActivity a f w) w' \<Longrightarrow> Q a f w w'"
    and nil: "\<And>g w. R g [] w w"
    and cons: "\<And>g d acts w w1 w'. Q d g w w1 \<Longrightarrow> R g acts w1 w' \<Longrightarrow> R g (d # acts) w w'"
  shows "Q a f w w'"
  using run
proof (induction fuel arbitrary: a f w w')
  case 0
  then show ?case by simp
next
  case (Suc fuel)
  have list: "forEachAdd fuel cs ds am g acts (Inr v) = Inr v' \<Longrightarrow> R g acts v v'" for g acts v v'
  proof (induction acts arbitrary: v)
    case Nil
    then show ?case using nil by simp
  next
    case (Cons d acts)
    from Cons.prems obtain v1 where
      v1: "addActivityAndDependents fuel cs ds am d g v = Inr v1"
      and rest: "forEachAdd fuel cs ds am g acts (Inr v1) = Inr v'"
      using forEachAdd_ConsD by blast
    from v1 have "Q d g v v1" by (rule Suc.IH)
    moreover from rest have "R g acts v1 v'" by (rule Cons.IH)
    ultimately show ?case by (rule cons)
  qed
  show ?case
  proof (cases "id_act a \<in> processedActivityIds w")
    case True
    with Suc.prems have "w' = w" by (simp add: add_Suc)
    with True skip show ?thesis by simp
  next
    case False
    from add_visitD [OF Suc.prems False] obtain sds where
      s: "sortedDependentsOf cs ds am a = Inr sds"
      and f: "forEachAdd fuel cs ds am (Some True) sds (Inr (pushActivity a f w)) = Inr w'"
      by blast
    from f have "R (Some True) sds (pushActivity a f w) w'" by (rule list)
    with False s show ?thesis by (rule visit)
  qed
qed

lemma forEach_rule:
  assumes run: "forEachAdd fuel cs ds am g acts (Inr w) = Inr w'"
    and skip: "\<And>a f w. id_act a \<in> processedActivityIds w \<Longrightarrow> Q a f w w"
    and visit: "\<And>a f w w' sds. id_act a \<notin> processedActivityIds w \<Longrightarrow>
                  sortedDependentsOf cs ds am a = Inr sds \<Longrightarrow>
                  R (Some True) sds (pushActivity a f w) w' \<Longrightarrow> Q a f w w'"
    and nil: "\<And>g w. R g [] w w"
    and cons: "\<And>g d acts w w1 w'. Q d g w w1 \<Longrightarrow> R g acts w1 w' \<Longrightarrow> R g (d # acts) w w'"
  shows "R g acts w w'"
  using run
proof (induction acts arbitrary: w)
  case Nil
  then show ?case using nil by simp
next
  case (Cons d acts)
  from Cons.prems obtain w1 where
    w1: "addActivityAndDependents fuel cs ds am d g w = Inr w1"
    and rest: "forEachAdd fuel cs ds am g acts (Inr w1) = Inr w'"
    using forEachAdd_ConsD by blast
  from w1 skip visit nil cons have "Q d g w w1" by (rule add_rule [where Q = Q and R = R])
  moreover from rest have "R g acts w1 w'" by (rule Cons.IH)
  ultimately show ?case by (rule cons)
qed

lemma walk_rule:
  assumes skip: "\<And>a f w. id_act a \<in> processedActivityIds w \<Longrightarrow> Q a f w w"
    and visit: "\<And>a f w w' sds. id_act a \<notin> processedActivityIds w \<Longrightarrow>
                  sortedDependentsOf cs ds am a = Inr sds \<Longrightarrow>
                  R (Some True) sds (pushActivity a f w) w' \<Longrightarrow> Q a f w w'"
    and nil: "\<And>g w. R g [] w w"
    and cons: "\<And>g d acts w w1 w'. Q d g w w1 \<Longrightarrow> R g acts w1 w' \<Longrightarrow> R g (d # acts) w w'"
  shows "(addActivityAndDependents fuel cs ds am a f w = Inr w' \<longrightarrow> Q a f w w') \<and>
         (forEachAdd fuel cs ds am g acts (Inr w) = Inr w' \<longrightarrow> R g acts w w')"
proof (rule conjI; rule impI)
  assume "addActivityAndDependents fuel cs ds am a f w = Inr w'"
  from this skip visit nil cons show "Q a f w w'"
    by (rule add_rule [where Q = Q and R = R])
next
  assume "forEachAdd fuel cs ds am g acts (Inr w) = Inr w'"
  from this skip visit nil cons show "R g acts w w'"
    by (rule forEach_rule [where Q = Q and R = R])
qed

lemma activityIndex_resolves:
  "categoryResolves ds c \<Longrightarrow>
     activityIndex ds c n = Inr (indexOf (case ds c of None \<Rightarrow> [] | Some ns \<Rightarrow> ns) n)"
  by (auto simp: categoryResolves_def activityIndex_def split: option.splits)

lemma activityIndex_InrD:
  "activityIndex ds c n = Inr i \<Longrightarrow> i = indexOf (case ds c of None \<Rightarrow> [] | Some ns \<Rightarrow> ns) n"
  by (auto simp: activityIndex_def split: option.splits if_splits)

lemma activityIndex_InlD: "activityIndex ds c n = Inl e \<Longrightarrow> e = TypeError"
  by (auto simp: activityIndex_def split: option.splits if_splits)

lemma compareActivities_InlD: "compareActivities cs ds a b = Inl e \<Longrightarrow> e = TypeError"
  by (auto simp: compareActivities_def Let_def split: if_splits sum.splits
      dest: activityIndex_InlD)

lemma compareActivities_InrD:
  assumes "compareActivities cs ds a b = Inr c"
  shows "c \<le> 0 \<longleftrightarrow> activityKey cs ds a \<le> activityKey cs ds b"
proof (cases "indexOf cs (category a) = indexOf cs (category b)")
  case False
  with assms have "c = indexOf cs (category a) - indexOf cs (category b)"
    by (simp add: compareActivities_def)
  with False show ?thesis by (auto simp: activityKey_def less_eq_prod_def)
next
  case True
  with assms obtain i j where i: "activityIndex ds (category a) (activityName a) = Inr i"
    and j: "activityIndex ds (category b) (activityName b) = Inr j" and c: "c = i - j"
    by (auto simp: compareActivities_def split: sum.splits)
  from i j have "i = snd (activityKey cs ds a)" "j = snd (activityKey cs ds b)"
    by (simp_all add: activityKey_def activityIndex_InrD)
  with True c show ?thesis by (auto simp: activityKey_def less_eq_prod_def)
qed

lemma compareActivities_resolves:
  assumes "categoryResolves ds (category a)" and "categoryResolves ds (category b)"
  shows "compareActivities cs ds a b =
           Inr (if fst (activityKey cs ds a) \<noteq> fst (activityKey cs ds b)
                then fst (activityKey cs ds a) - fst (activityKey cs ds b)
                else snd (activityKey cs ds a) - snd (activityKey cs ds b))"
  using assms by (simp add: compareActivities_def activityKey_def activityIndex_resolves)

lemma insertWith_InrD:
  "insertWith (compareActivities cs ds) x ys = Inr zs \<Longrightarrow> zs = insort_key (activityKey cs ds) x ys"
proof (induction ys arbitrary: zs)
  case Nil
  then show ?case by simp
next
  case (Cons y ys)
  from Cons.prems obtain c where c: "compareActivities cs ds x y = Inr c"
    by (cases "compareActivities cs ds x y") simp_all
  note k = compareActivities_InrD [OF c]
  show ?case
  proof (cases "c \<le> 0")
    case True
    with Cons.prems c k show ?thesis by simp
  next
    case False
    with Cons.prems c obtain zs' where z: "insertWith (compareActivities cs ds) x ys = Inr zs'"
      and zs: "zs = y # zs'"
      by (cases "insertWith (compareActivities cs ds) x ys") auto
    from Cons.IH [OF z] zs False k show ?thesis by simp
  qed
qed

lemma insertWith_InlD: "insertWith (compareActivities cs ds) x ys = Inl e \<Longrightarrow> e = TypeError"
  by (induction ys) (auto split: sum.splits if_splits dest: compareActivities_InlD)

lemma sortWith_InrD:
  "sortWith (compareActivities cs ds) xs = Inr ys \<Longrightarrow> ys = sort_key (activityKey cs ds) xs"
proof (induction xs arbitrary: ys)
  case Nil
  then show ?case by simp
next
  case (Cons x xs)
  from Cons.prems obtain ys' where s: "sortWith (compareActivities cs ds) xs = Inr ys'"
    and i: "insertWith (compareActivities cs ds) x ys' = Inr ys"
    by (cases "sortWith (compareActivities cs ds) xs") auto
  from Cons.IH [OF s] insertWith_InrD [OF i] show ?case by simp
qed

lemma sortWith_InlD: "sortWith (compareActivities cs ds) xs = Inl e \<Longrightarrow> e = TypeError"
  by (induction xs) (auto split: sum.splits dest: insertWith_InlD)

lemma insertWith_resolves:
  assumes "categoryResolves ds (category x)" and "\<forall>y \<in> set ys. categoryResolves ds (category y)"
  shows "\<exists>zs. insertWith (compareActivities cs ds) x ys = Inr zs"
  using assms(2)
proof (induction ys)
  case Nil
  show ?case by simp
next
  case (Cons y ys)
  then obtain zs where "insertWith (compareActivities cs ds) x ys = Inr zs" by auto
  moreover from Cons.prems assms(1) obtain c where "compareActivities cs ds x y = Inr c"
    by (simp add: compareActivities_resolves)
  ultimately show ?case by simp
qed

lemma sortWith_resolves:
  assumes "\<forall>x \<in> set xs. categoryResolves ds (category x)"
  shows "sortWith (compareActivities cs ds) xs = Inr (sort_key (activityKey cs ds) xs)"
proof -
  have "\<exists>ys. sortWith (compareActivities cs ds) xs = Inr ys"
    using assms
  proof (induction xs)
    case Nil
    show ?case by simp
  next
    case (Cons x xs)
    then obtain ys where ys: "sortWith (compareActivities cs ds) xs = Inr ys" by auto
    then have "ys = sort_key (activityKey cs ds) xs" by (rule sortWith_InrD)
    with Cons.prems have "\<forall>y \<in> set ys. categoryResolves ds (category y)" by simp
    with Cons.prems obtain zs where "insertWith (compareActivities cs ds) x ys = Inr zs"
      using insertWith_resolves by (metis list.set_intros(1))
    with ys show ?case by simp
  qed
  then show ?thesis using sortWith_InrD by blast
qed

lemma sortWith_set: "sortWith (compareActivities cs ds) xs = Inr ys \<Longrightarrow> set ys = set xs"
  by (drule sortWith_InrD) simp

lemma sortWith_distinct:
  "sortWith (compareActivities cs ds) xs = Inr ys \<Longrightarrow> distinct ys = distinct xs"
  by (drule sortWith_InrD) simp

lemma activityMap_fold:
  "fold (\<lambda>act m. m(id_act act \<mapsto> act)) xs m k =
     (case map_of (rev (map (\<lambda>a. (id_act a, a)) xs)) k of None \<Rightarrow> m k | Some a \<Rightarrow> Some a)"
  by (induction xs arbitrary: m) (auto simp: map_add_def split: option.splits)

lemma activityMapOf_eq: "activityMapOf xs = map_of (rev (map (\<lambda>a. (id_act a, a)) xs))"
  by (rule ext) (simp add: activityMapOf_def activityMap_fold split: option.splits)

lemma activityMapOf_SomeD:
  assumes "activityMapOf xs k = Some a"
  shows "a \<in> set xs \<and> id_act a = k"
proof -
  from assms have "(k, a) \<in> set (rev (map (\<lambda>a. (id_act a, a)) xs))"
    unfolding activityMapOf_eq by (rule map_of_SomeD)
  then show ?thesis by auto
qed

lemma dom_activityMapOf: "dom (activityMapOf xs) = id_act ` set xs"
  by (force simp: activityMapOf_eq dom_map_of_conv_image_fst)

lemma activityMapOf_distinct:
  assumes "distinct (map id_act xs)" and "a \<in> set xs"
  shows "activityMapOf xs (id_act a) = Some a"
proof -
  have "distinct (map fst (rev (map (\<lambda>a. (id_act a, a)) xs)))"
    using assms(1) by (simp add: rev_map [symmetric] comp_def)
  moreover have "(id_act a, a) \<in> set (rev (map (\<lambda>a. (id_act a, a)) xs))"
    using assms(2) by auto
  ultimately show ?thesis unfolding activityMapOf_eq by (rule map_of_is_SomeI)
qed

lemma set_map_filter: "set (List.map_filter f xs) = {y. \<exists>x \<in> set xs. f x = Some y}"
  by (induction xs) (auto simp: List.map_filter_def)

lemma resolvedDependents_iff:
  "d \<in> set (resolvedDependents am a) \<longleftrightarrow> (\<exists>k \<in> set (dependentsOrEmpty a). am k = Some d)"
  by (auto simp: resolvedDependents_def set_map_filter)

lemma sortedDependentsOf_set:
  "sortedDependentsOf cs ds am a = Inr sds \<Longrightarrow> set sds = set (resolvedDependents am a)"
  unfolding sortedDependentsOf_def by (rule sortWith_set)

lemma allDependentIdsOf_iff:
  "k \<in> allDependentIdsOf xs \<longleftrightarrow> (\<exists>a \<in> set xs. k \<in> set (dependentsOrEmpty a))"
  by (auto simp: allDependentIdsOf_def)

lemma isDependentOrFalse_Some [simp]: "isDependentOrFalse a (Some b) = b"
  by (simp add: isDependentOrFalse_def)

lemma isDependentOrFalse_None:
  "isDependentOrFalse a None \<longleftrightarrow> isDependent a = Some True"
  by (simp add: isDependentOrFalse_def split: option.split)

lemma pushActivity_simps [simp]:
  "displayedOrder (pushActivity a f w) = displayedOrder w @ [(a, isDependentOrFalse a f)]"
  "processedActivityIds (pushActivity a f w) = insert (id_act a) (processedActivityIds w)"
  by (simp_all add: pushActivity_def)

lemma closedSince_refl: "closedSince am w w"
  by (simp add: closedSince_def)

lemma closedSince_trans:
  "closedSince am w w1 \<Longrightarrow> closedSince am w1 w' \<Longrightarrow> closedSince am w w'"
  unfolding closedSince_def by blast

lemma closedSince_push:
  assumes "closedSince am (pushActivity a f w) w'"
    and "\<forall>d \<in> set (resolvedDependents am a). id_act d \<in> processedActivityIds w'"
  shows "closedSince am w w' \<and> id_act a \<in> processedActivityIds w'"
  using assms unfolding closedSince_def by (auto simp: subset_iff)

lemma walk_closure:
  "(addActivityAndDependents fuel cs ds am a f w = Inr w' \<longrightarrow>
      closedSince am w w' \<and> id_act a \<in> processedActivityIds w') \<and>
   (forEachAdd fuel cs ds am g acts (Inr w) = Inr w' \<longrightarrow>
      closedSince am w w' \<and> (\<forall>d \<in> set acts. id_act d \<in> processedActivityIds w'))"
proof (rule walk_rule [where
      Q = "\<lambda>(a :: MaintenanceActivity) (f :: bool option) (w :: walk) (w' :: walk).
             closedSince am w w' \<and> id_act a \<in> processedActivityIds w'"
      and R = "\<lambda>(g :: bool option) (acts :: MaintenanceActivity list) (w :: walk) (w' :: walk).
             closedSince am w w' \<and> (\<forall>d \<in> set acts. id_act d \<in> processedActivityIds w')"])
  fix a :: MaintenanceActivity and f :: "bool option" and w :: walk
  assume "id_act a \<in> processedActivityIds w"
  then show "closedSince am w w \<and> id_act a \<in> processedActivityIds w"
    by (simp add: closedSince_refl)
next
  fix a :: MaintenanceActivity and f :: "bool option" and w w' :: walk
    and sds :: "MaintenanceActivity list"
  assume s: "sortedDependentsOf cs ds am a = Inr sds"
    and r: "closedSince am (pushActivity a f w) w' \<and> (\<forall>d \<in> set sds. id_act d \<in> processedActivityIds w')"
  from s have "set sds = set (resolvedDependents am a)" by (rule sortedDependentsOf_set)
  with r show "closedSince am w w' \<and> id_act a \<in> processedActivityIds w'"
    using closedSince_push by blast
next
  fix g :: "bool option" and w :: walk
  show "closedSince am w w \<and> (\<forall>d \<in> set ([] :: MaintenanceActivity list). id_act d \<in> processedActivityIds w)"
    by (simp add: closedSince_refl)
next
  fix g :: "bool option" and d :: MaintenanceActivity and acts :: "MaintenanceActivity list"
    and w w1 w' :: walk
  assume q: "closedSince am w w1 \<and> id_act d \<in> processedActivityIds w1"
    and r: "closedSince am w1 w' \<and> (\<forall>d \<in> set acts. id_act d \<in> processedActivityIds w')"
  from q r have "closedSince am w w'" using closedSince_trans by blast
  moreover from r have "processedActivityIds w1 \<subseteq> processedActivityIds w'"
    by (simp add: closedSince_def)
  with q have "id_act d \<in> processedActivityIds w'" by blast
  ultimately show "closedSince am w w' \<and> (\<forall>x \<in> set (d # acts). id_act x \<in> processedActivityIds w')"
    using r by simp
qed

lemma extends_refl: "extends w w"
  unfolding extends_def by (rule exI [of _ "[]"]) simp

lemma extends_trans:
  assumes "extends w w1" and "extends w1 w'"
  shows "extends w w'"
proof -
  from assms(1) obtain n1 where n1: "displayedOrder w1 = displayedOrder w @ n1"
    "processedActivityIds w1 = processedActivityIds w \<union> (id_act \<circ> fst) ` set n1"
    "distinct (map (id_act \<circ> fst) n1)" "(id_act \<circ> fst) ` set n1 \<inter> processedActivityIds w = {}"
    unfolding extends_def by blast
  from assms(2) obtain n2 where n2: "displayedOrder w' = displayedOrder w1 @ n2"
    "processedActivityIds w' = processedActivityIds w1 \<union> (id_act \<circ> fst) ` set n2"
    "distinct (map (id_act \<circ> fst) n2)" "(id_act \<circ> fst) ` set n2 \<inter> processedActivityIds w1 = {}"
    unfolding extends_def by blast
  have "displayedOrder w' = displayedOrder w @ (n1 @ n2)" using n1(1) n2(1) by simp
  moreover have "processedActivityIds w' = processedActivityIds w \<union> (id_act \<circ> fst) ` set (n1 @ n2)"
    using n1(2) n2(2) by auto
  moreover have "distinct (map (id_act \<circ> fst) (n1 @ n2))"
    using n1(2,3) n2(3,4) by auto
  moreover have "(id_act \<circ> fst) ` set (n1 @ n2) \<inter> processedActivityIds w = {}"
    using n1(2,4) n2(4) by auto
  ultimately show ?thesis unfolding extends_def by blast
qed

lemma extends_push:
  assumes "id_act a \<notin> processedActivityIds w" and "extends (pushActivity a f w) w'"
  shows "extends w w' \<and> (\<exists>more. displayedOrder w' = displayedOrder w @ (a, isDependentOrFalse a f) # more)"
proof -
  from assms(2) obtain n where n: "displayedOrder w' = displayedOrder (pushActivity a f w) @ n"
    "processedActivityIds w' = processedActivityIds (pushActivity a f w) \<union> (id_act \<circ> fst) ` set n"
    "distinct (map (id_act \<circ> fst) n)"
    "(id_act \<circ> fst) ` set n \<inter> processedActivityIds (pushActivity a f w) = {}"
    unfolding extends_def by blast
  have d: "displayedOrder w' = displayedOrder w @ ((a, isDependentOrFalse a f) # n)"
    using n(1) by simp
  moreover have "processedActivityIds w' = processedActivityIds w \<union> (id_act \<circ> fst) ` set ((a, isDependentOrFalse a f) # n)"
    using n(2) by auto
  moreover have "distinct (map (id_act \<circ> fst) ((a, isDependentOrFalse a f) # n))"
    using n(3,4) by auto
  moreover have "(id_act \<circ> fst) ` set ((a, isDependentOrFalse a f) # n) \<inter> processedActivityIds w = {}"
    using n(4) assms(1) by auto
  ultimately have "extends w w'" unfolding extends_def by blast
  with d show ?thesis by blast
qed

lemma walk_extends:
  "(addActivityAndDependents fuel cs ds am a f w = Inr w' \<longrightarrow>
      extends w w' \<and> (id_act a \<notin> processedActivityIds w \<longrightarrow>
         (\<exists>more. displayedOrder w' = displayedOrder w @ (a, isDependentOrFalse a f) # more))) \<and>
   (forEachAdd fuel cs ds am g acts (Inr w) = Inr w' \<longrightarrow> extends w w')"
proof (rule walk_rule [where
      Q = "\<lambda>(a :: MaintenanceActivity) (f :: bool option) (w :: walk) (w' :: walk).
             extends w w' \<and> (id_act a \<notin> processedActivityIds w \<longrightarrow>
               (\<exists>more. displayedOrder w' = displayedOrder w @ (a, isDependentOrFalse a f) # more))"
      and R = "\<lambda>(g :: bool option) (acts :: MaintenanceActivity list) (w :: walk) (w' :: walk).
             extends w w'"])
  fix a :: MaintenanceActivity and f :: "bool option" and w :: walk
  assume "id_act a \<in> processedActivityIds w"
  then show "extends w w \<and> (id_act a \<notin> processedActivityIds w \<longrightarrow>
         (\<exists>more. displayedOrder w = displayedOrder w @ (a, isDependentOrFalse a f) # more))"
    by (simp add: extends_refl)
next
  fix a :: MaintenanceActivity and f :: "bool option" and w w' :: walk
  assume "id_act a \<notin> processedActivityIds w" and "extends (pushActivity a f w) w'"
  then show "extends w w' \<and> (id_act a \<notin> processedActivityIds w \<longrightarrow>
         (\<exists>more. displayedOrder w' = displayedOrder w @ (a, isDependentOrFalse a f) # more))"
    using extends_push by blast
next
  fix w :: walk
  show "extends w w" by (rule extends_refl)
next
  fix g :: "bool option" and d :: MaintenanceActivity and w w1 w' :: walk
  assume "extends w w1 \<and> (id_act d \<notin> processedActivityIds w \<longrightarrow>
         (\<exists>more. displayedOrder w1 = displayedOrder w @ (d, isDependentOrFalse d g) # more))"
    and "extends w1 w'"
  then show "extends w w'" using extends_trans by blast
qed

lemma forEach_extends:
  "forEachAdd fuel cs ds am g acts (Inr w) = Inr w' \<Longrightarrow> extends w w'"
  using walk_extends by blast

lemma add_extends:
  "addActivityAndDependents fuel cs ds am a f w = Inr w' \<Longrightarrow> extends w w'"
  using walk_extends by blast

lemma add_first:
  "addActivityAndDependents fuel cs ds am a f w = Inr w' \<Longrightarrow> id_act a \<notin> processedActivityIds w \<Longrightarrow>
     \<exists>more. displayedOrder w' = displayedOrder w @ (a, isDependentOrFalse a f) # more"
  using walk_extends by blast

lemma extends_display: "extends w w' \<Longrightarrow> \<exists>new. displayedOrder w' = displayedOrder w @ new"
  unfolding extends_def by blast

lemma extends_processed: "extends w w' \<Longrightarrow> processedActivityIds w \<subseteq> processedActivityIds w'"
  unfolding extends_def by blast

lemma walk_entries:
  assumes step: "\<And>a g d. E (a, g) \<Longrightarrow> d \<in> set (resolvedDependents am a) \<Longrightarrow> E (d, True)"
  shows "(addActivityAndDependents fuel cs ds am a f w = Inr w' \<longrightarrow>
            E (a, isDependentOrFalse a f) \<longrightarrow> (\<forall>e \<in> set (displayedOrder w). E e) \<longrightarrow>
            (\<forall>e \<in> set (displayedOrder w'). E e)) \<and>
         (forEachAdd fuel cs ds am g acts (Inr w) = Inr w' \<longrightarrow>
            (\<forall>d \<in> set acts. E (d, isDependentOrFalse d g)) \<longrightarrow> (\<forall>e \<in> set (displayedOrder w). E e) \<longrightarrow>
            (\<forall>e \<in> set (displayedOrder w'). E e))"
proof (rule walk_rule [where
      Q = "\<lambda>(a :: MaintenanceActivity) (f :: bool option) (w :: walk) (w' :: walk).
             E (a, isDependentOrFalse a f) \<longrightarrow> (\<forall>e \<in> set (displayedOrder w). E e) \<longrightarrow>
             (\<forall>e \<in> set (displayedOrder w'). E e)"
      and R = "\<lambda>(g :: bool option) (acts :: MaintenanceActivity list) (w :: walk) (w' :: walk).
             (\<forall>d \<in> set acts. E (d, isDependentOrFalse d g)) \<longrightarrow> (\<forall>e \<in> set (displayedOrder w). E e) \<longrightarrow>
             (\<forall>e \<in> set (displayedOrder w'). E e)"])
  fix a :: MaintenanceActivity and f :: "bool option" and w :: walk
  show "E (a, isDependentOrFalse a f) \<longrightarrow> (\<forall>e \<in> set (displayedOrder w). E e) \<longrightarrow> (\<forall>e \<in> set (displayedOrder w). E e)"
    by blast
next
  fix a :: MaintenanceActivity and f :: "bool option" and w w' :: walk
    and sds :: "MaintenanceActivity list"
  assume s: "sortedDependentsOf cs ds am a = Inr sds"
    and r: "(\<forall>d \<in> set sds. E (d, isDependentOrFalse d (Some True))) \<longrightarrow>
      (\<forall>e \<in> set (displayedOrder (pushActivity a f w)). E e) \<longrightarrow> (\<forall>e \<in> set (displayedOrder w'). E e)"
  have "\<forall>e \<in> set (displayedOrder w'). E e"
    if ea: "E (a, isDependentOrFalse a f)" and ew: "\<forall>e \<in> set (displayedOrder w). E e"
  proof -
    from s have "set sds = set (resolvedDependents am a)" by (rule sortedDependentsOf_set)
    then have "\<forall>d \<in> set sds. E (d, isDependentOrFalse d (Some True))"
      using step [OF ea] by simp
    moreover from ea ew have "\<forall>e \<in> set (displayedOrder (pushActivity a f w)). E e"
      by simp
    ultimately show ?thesis using r by blast
  qed
  then show "E (a, isDependentOrFalse a f) \<longrightarrow> (\<forall>e \<in> set (displayedOrder w). E e) \<longrightarrow> (\<forall>e \<in> set (displayedOrder w'). E e)"
    by blast
next
  fix g :: "bool option" and w :: walk
  show "(\<forall>d \<in> set ([] :: MaintenanceActivity list). E (d, isDependentOrFalse d g)) \<longrightarrow> (\<forall>e \<in> set (displayedOrder w). E e) \<longrightarrow>
      (\<forall>e \<in> set (displayedOrder w). E e)"
    by blast
next
  fix g :: "bool option" and d :: MaintenanceActivity and acts :: "MaintenanceActivity list"
    and w w1 w' :: walk
  assume q: "E (d, isDependentOrFalse d g) \<longrightarrow> (\<forall>e \<in> set (displayedOrder w). E e) \<longrightarrow> (\<forall>e \<in> set (displayedOrder w1). E e)"
    and r: "(\<forall>d \<in> set acts. E (d, isDependentOrFalse d g)) \<longrightarrow> (\<forall>e \<in> set (displayedOrder w1). E e) \<longrightarrow>
        (\<forall>e \<in> set (displayedOrder w'). E e)"
  have "\<forall>e \<in> set (displayedOrder w'). E e"
    if all: "\<forall>x \<in> set (d # acts). E (x, isDependentOrFalse x g)" and ew: "\<forall>e \<in> set (displayedOrder w). E e"
  proof -
    from all have "E (d, isDependentOrFalse d g)" and rest: "\<forall>x \<in> set acts. E (x, isDependentOrFalse x g)"
      by (simp_all del: split_paired_All split_paired_Ex)
    with q ew have "\<forall>e \<in> set (displayedOrder w1). E e" by blast
    with r rest show ?thesis by blast
  qed
  then show "(\<forall>d \<in> set (d # acts). E (d, isDependentOrFalse d g)) \<longrightarrow> (\<forall>e \<in> set (displayedOrder w). E e) \<longrightarrow>
        (\<forall>e \<in> set (displayedOrder w'). E e)"
    by blast
qed

lemma sortedDependentsOf_InlD: "sortedDependentsOf cs ds am a = Inl e \<Longrightarrow> e = TypeError"
  unfolding sortedDependentsOf_def by (rule sortWith_InlD)

lemma walk_ends:
  assumes keyed: "\<And>k a. am k = Some a \<Longrightarrow> id_act a = k" and fin: "finite (dom am)"
  shows "id_act a \<in> dom am \<Longrightarrow> card (dom am - processedActivityIds w) < fuel \<Longrightarrow>
           addActivityAndDependents fuel cs ds am a f w \<noteq> Inl OutOfFuel"
proof (induction fuel arbitrary: a f w)
  case 0
  then show ?case by simp
next
  case (Suc fuel)
  have list: "(\<forall>d \<in> set acts. id_act d \<in> dom am) \<Longrightarrow> card (dom am - processedActivityIds v) < fuel \<Longrightarrow>
      forEachAdd fuel cs ds am g acts (Inr v) \<noteq> Inl OutOfFuel" for acts g v
  proof (induction acts arbitrary: v)
    case Nil
    then show ?case by simp
  next
    case (Cons d acts)
    from Cons.prems have d: "id_act d \<in> dom am" by simp
    show ?case
    proof (cases "addActivityAndDependents fuel cs ds am d g v")
      case (Inl e)
      with Suc.IH [OF d Cons.prems(2), of g] show ?thesis by simp
    next
      case (Inr v1)
      then have "processedActivityIds v \<subseteq> processedActivityIds v1"
        by (intro extends_processed add_extends)
      then have "dom am - processedActivityIds v1 \<subseteq> dom am - processedActivityIds v" by blast
      then have "card (dom am - processedActivityIds v1) \<le> card (dom am - processedActivityIds v)"
        using fin by (intro card_mono) auto
      with Cons.prems(2) have "card (dom am - processedActivityIds v1) < fuel" by simp
      moreover from Cons.prems(1) have "\<forall>d \<in> set acts. id_act d \<in> dom am" by simp
      ultimately have "forEachAdd fuel cs ds am g acts (Inr v1) \<noteq> Inl OutOfFuel"
        by (rule Cons.IH [rotated])
      with Inr show ?thesis by simp
    qed
  qed
  show ?case
  proof (cases "id_act a \<in> processedActivityIds w")
    case True
    then show ?thesis by (simp add: add_Suc)
  next
    case False
    show ?thesis
    proof (cases "sortedDependentsOf cs ds am a")
      case (Inl e)
      then have "e = TypeError" by (rule sortedDependentsOf_InlD)
      with Inl False show ?thesis by (simp add: add_Suc)
    next
      case (Inr sds)
      have "dom am - processedActivityIds (pushActivity a f w) \<subset> dom am - processedActivityIds w"
        using False Suc.prems(1) by auto
      then have "card (dom am - processedActivityIds (pushActivity a f w)) < card (dom am - processedActivityIds w)"
        using fin by (intro psubset_card_mono) auto
      with Suc.prems(2) have c: "card (dom am - processedActivityIds (pushActivity a f w)) < fuel" by simp
      from Inr have "set sds = set (resolvedDependents am a)" by (rule sortedDependentsOf_set)
      then have "\<forall>d \<in> set sds. id_act d \<in> dom am"
        using keyed by (auto simp: resolvedDependents_iff)
      from list [OF this c] Inr False show ?thesis by (simp add: add_Suc)
    qed
  qed
qed

lemma forEach_ends:
  assumes keyed: "\<And>k a. am k = Some a \<Longrightarrow> id_act a = k" and fin: "finite (dom am)"
  shows "(\<forall>d \<in> set acts. id_act d \<in> dom am) \<Longrightarrow> card (dom am - processedActivityIds w) < fuel \<Longrightarrow>
      forEachAdd fuel cs ds am g acts (Inr w) \<noteq> Inl OutOfFuel"
proof (induction acts arbitrary: w)
  case Nil
  then show ?case by simp
next
  case (Cons d acts)
  from Cons.prems have d: "id_act d \<in> dom am" by simp
  show ?case
  proof (cases "addActivityAndDependents fuel cs ds am d g w")
    case (Inl e)
    with walk_ends [OF keyed fin d Cons.prems(2), of cs ds g] show ?thesis by simp
  next
    case (Inr w1)
    then have "processedActivityIds w \<subseteq> processedActivityIds w1"
      by (intro extends_processed add_extends)
    then have "dom am - processedActivityIds w1 \<subseteq> dom am - processedActivityIds w" by blast
    then have "card (dom am - processedActivityIds w1) \<le> card (dom am - processedActivityIds w)"
      using fin by (intro card_mono) auto
    with Cons.prems(2) have "card (dom am - processedActivityIds w1) < fuel" by simp
    moreover from Cons.prems(1) have "\<forall>d \<in> set acts. id_act d \<in> dom am" by simp
    ultimately have "forEachAdd fuel cs ds am g acts (Inr w1) \<noteq> Inl OutOfFuel"
      by (rule Cons.IH [rotated])
    with Inr show ?thesis by simp
  qed
qed

lemma walk_no_TypeError:
  assumes ok: "\<forall>x \<in> set S. categoryResolves ds (category x)"
  shows "addActivityAndDependents fuel cs ds (activityMapOf S) a f w \<noteq> Inl TypeError"
proof (induction fuel arbitrary: a f w)
  case 0
  show ?case by simp
next
  case (Suc fuel)
  have list: "forEachAdd fuel cs ds (activityMapOf S) g acts (Inr v) \<noteq> Inl TypeError" for acts g v
  proof (induction acts arbitrary: v)
    case Nil
    show ?case by simp
  next
    case (Cons d acts)
    show ?case
    proof (cases "addActivityAndDependents fuel cs ds (activityMapOf S) d g v")
      case (Inl e)
      with Suc.IH [of d g v] show ?thesis by simp
    next
      case (Inr v1)
      with Cons.IH [of v1] show ?thesis by simp
    qed
  qed
  show ?case
  proof (cases "id_act a \<in> processedActivityIds w")
    case True
    then show ?thesis by (simp add: add_Suc)
  next
    case False
    have "categoryResolves ds (category x)" if "x \<in> set (resolvedDependents (activityMapOf S) a)" for x
    proof -
      from that obtain k where "activityMapOf S k = Some x" by (auto simp: resolvedDependents_iff)
      then have "x \<in> set S" by (simp add: activityMapOf_SomeD)
      with ok show ?thesis by blast
    qed
    then have "\<forall>x \<in> set (resolvedDependents (activityMapOf S) a). categoryResolves ds (category x)"
      by blast
    then have "sortedDependentsOf cs ds (activityMapOf S) a =
        Inr (sort_key (activityKey cs ds) (resolvedDependents (activityMapOf S) a))"
      unfolding sortedDependentsOf_def by (rule sortWith_resolves)
    with False list show ?thesis by (simp add: add_Suc)
  qed
qed

lemma forEach_no_TypeError:
  assumes ok: "\<forall>x \<in> set S. categoryResolves ds (category x)"
  shows "forEachAdd fuel cs ds (activityMapOf S) g acts (Inr w) \<noteq> Inl TypeError"
proof (induction acts arbitrary: w)
  case Nil
  show ?case by simp
next
  case (Cons d acts)
  show ?case
  proof (cases "addActivityAndDependents fuel cs ds (activityMapOf S) d g w")
    case (Inl e)
    with walk_no_TypeError [OF ok, of fuel cs d g w] show ?thesis by simp
  next
    case (Inr w1)
    with Cons.IH [of w1] show ?thesis by simp
  qed
qed

lemma forEach_more_fuel_aux:
  assumes ih: "\<And>a f w r. addActivityAndDependents n cs ds am a f w = r \<Longrightarrow> r \<noteq> Inl OutOfFuel \<Longrightarrow>
                 addActivityAndDependents m cs ds am a f w = r"
  shows "forEachAdd n cs ds am g acts (Inr w) = r \<Longrightarrow> r \<noteq> Inl OutOfFuel \<Longrightarrow>
         forEachAdd m cs ds am g acts (Inr w) = r"
proof (induction acts arbitrary: w)
  case Nil
  then show ?case by simp
next
  case (Cons d acts)
  show ?case
  proof (cases "addActivityAndDependents n cs ds am d g w")
    case (Inl e)
    with Cons.prems have r: "r = Inl e" by simp
    with Cons.prems(2) have "Inl e \<noteq> (Inl OutOfFuel :: failure + walk)" by simp
    with Inl have "addActivityAndDependents m cs ds am d g w = Inl e" by (rule ih)
    with r show ?thesis by simp
  next
    case (Inr w1)
    then have "addActivityAndDependents m cs ds am d g w = Inr w1" by (rule ih) simp
    moreover from Cons.prems(1) Inr have "forEachAdd n cs ds am g acts (Inr w1) = r" by simp
    then have "forEachAdd m cs ds am g acts (Inr w1) = r" using Cons.prems(2) by (rule Cons.IH)
    ultimately show ?thesis by simp
  qed
qed

lemma add_more_fuel:
  "addActivityAndDependents n cs ds am a f w = r \<Longrightarrow> r \<noteq> Inl OutOfFuel \<Longrightarrow> n \<le> m \<Longrightarrow>
     addActivityAndDependents m cs ds am a f w = r"
proof (induction n arbitrary: m a f w r)
  case 0
  then show ?case by simp
next
  case (Suc n)
  from Suc.prems(3) obtain m' where m: "m = Suc m'" and le: "n \<le> m'"
    by (cases m) simp_all
  show ?case
  proof (cases "id_act a \<in> processedActivityIds w")
    case True
    with Suc.prems(1) show ?thesis by (simp add: add_Suc m)
  next
    case False
    show ?thesis
    proof (cases "sortedDependentsOf cs ds am a")
      case (Inl e)
      with Suc.prems(1) False show ?thesis by (simp add: add_Suc m)
    next
      case (Inr sds)
      with Suc.prems(1) False have run: "forEachAdd n cs ds am (Some True) sds (Inr (pushActivity a f w)) = r"
        by (simp add: add_Suc)
      have ih: "addActivityAndDependents m' cs ds am b g v = q"
        if "addActivityAndDependents n cs ds am b g v = q" "q \<noteq> Inl OutOfFuel" for b g v q
        using that le by (rule Suc.IH)
      from ih run Suc.prems(2)
      have "forEachAdd m' cs ds am (Some True) sds (Inr (pushActivity a f w)) = r"
        by (rule forEach_more_fuel_aux)
      with Inr False show ?thesis by (simp add: add_Suc m)
    qed
  qed
qed

lemma forEach_more_fuel:
  assumes "forEachAdd n cs ds am g acts (Inr w) = r" and "r \<noteq> Inl OutOfFuel" and "n \<le> m"
  shows "forEachAdd m cs ds am g acts (Inr w) = r"
proof (rule forEach_more_fuel_aux [OF _ assms(1,2)])
  fix a f v q
  assume "addActivityAndDependents n cs ds am a f v = q" "q \<noteq> Inl OutOfFuel"
  then show "addActivityAndDependents m cs ds am a f v = q"
    using assms(3) by (rule add_more_fuel)
qed

lemma getDisplayActivities_fuel_forEach:
  "getDisplayActivities_fuel fuel sudsId all cs ds =
     (case topLevelActivitiesOf cs ds (sudsActivitiesOf sudsId all) of
        Inl e \<Rightarrow> Inl e
      | Inr topLevelActivities \<Rightarrow>
          (case forEachAdd fuel cs ds (activityMapOf (sudsActivitiesOf sudsId all)) None
                  topLevelActivities (Inr emptyWalk) of
             Inl e \<Rightarrow> Inl e
           | Inr w \<Rightarrow> Inr (displayedOrder w)))"
  by (simp add: getDisplayActivities_fuel_def forEachAdd_def Let_def sudsActivitiesOf_def
      topLevelActivitiesOf_def emptyWalk_def split: sum.split)

lemma getDisplayActivities_forEach:
  "getDisplayActivities sudsId all cs ds =
     (case topLevelActivitiesOf cs ds (sudsActivitiesOf sudsId all) of
        Inl e \<Rightarrow> Inl e
      | Inr topLevelActivities \<Rightarrow>
          (case forEachAdd (Suc (length (sudsActivitiesOf sudsId all))) cs ds
                  (activityMapOf (sudsActivitiesOf sudsId all)) None
                  topLevelActivities (Inr emptyWalk) of
             Inl e \<Rightarrow> Inl e
           | Inr w \<Rightarrow> Inr (displayedOrder w)))"
  unfolding getDisplayActivities_def sudsActivitiesOf_def [symmetric]
  by (rule getDisplayActivities_fuel_forEach)

lemma getDisplayActivities_InrD:
  assumes "getDisplayActivities sudsId all cs ds = Inr out"
  shows "\<exists>roots wz. topLevelActivitiesOf cs ds (sudsActivitiesOf sudsId all) = Inr roots \<and>
           forEachAdd (Suc (length (sudsActivitiesOf sudsId all))) cs ds
             (activityMapOf (sudsActivitiesOf sudsId all)) None roots (Inr emptyWalk) = Inr wz \<and>
           out = displayedOrder wz"
  using assms unfolding getDisplayActivities_forEach by (auto split: sum.splits)

lemma topLevel_iff:
  "topLevelActivitiesOf cs ds S = Inr roots \<Longrightarrow>
     a \<in> set roots \<longleftrightarrow> a \<in> set S \<and> id_act a \<notin> allDependentIdsOf S"
  unfolding topLevelActivitiesOf_def by (drule sortWith_set) auto

lemma topLevel_InlD: "topLevelActivitiesOf cs ds S = Inl e \<Longrightarrow> e = TypeError"
  unfolding topLevelActivitiesOf_def by (rule sortWith_InlD)

lemma topLevel_resolves:
  assumes "\<forall>x \<in> set S. categoryResolves ds (category x)"
  shows "topLevelActivitiesOf cs ds S =
           Inr (sort_key (activityKey cs ds)
                  (filter (\<lambda>act. id_act act \<notin> allDependentIdsOf S) S))"
  unfolding topLevelActivitiesOf_def using assms by (intro sortWith_resolves) simp

lemma activityMapOf_keyed: "activityMapOf S k = Some a \<Longrightarrow> id_act a = k"
  by (simp add: activityMapOf_SomeD)

lemma toplevel_ends:
  assumes "topLevelActivitiesOf cs ds S = Inr roots" and "length S < fuel"
  shows "forEachAdd fuel cs ds (activityMapOf S) None roots (Inr emptyWalk) \<noteq> Inl OutOfFuel"
proof (rule forEach_ends)
  show "\<And>k a. activityMapOf S k = Some a \<Longrightarrow> id_act a = k" by (rule activityMapOf_keyed)
  show "finite (dom (activityMapOf S))" by (simp add: dom_activityMapOf)
  show "\<forall>d \<in> set roots. id_act d \<in> dom (activityMapOf S)"
    using topLevel_iff [OF assms(1)] by (simp add: dom_activityMapOf)
  have "card (dom (activityMapOf S)) \<le> card (set S)"
    unfolding dom_activityMapOf by (rule card_image_le) simp
  also have "\<dots> \<le> length S" by (rule card_length)
  finally show "card (dom (activityMapOf S) - processedActivityIds emptyWalk) < fuel"
    using assms(2) by (simp add: emptyWalk_def)
qed

lemma getDisplayActivities_fuel_ends:
  assumes "length (sudsActivitiesOf sudsId all) < fuel"
  shows "getDisplayActivities_fuel fuel sudsId all cs ds \<noteq> Inl OutOfFuel"
proof (cases "topLevelActivitiesOf cs ds (sudsActivitiesOf sudsId all)")
  case (Inl e)
  then have "e = TypeError" by (rule topLevel_InlD)
  with Inl show ?thesis by (simp add: getDisplayActivities_fuel_forEach)
next
  case (Inr roots)
  have ne: "forEachAdd fuel cs ds (activityMapOf (sudsActivitiesOf sudsId all)) None roots
      (Inr emptyWalk) \<noteq> Inl OutOfFuel"
    using Inr assms by (rule toplevel_ends)
  show ?thesis
  proof (cases "forEachAdd fuel cs ds (activityMapOf (sudsActivitiesOf sudsId all)) None roots
      (Inr emptyWalk)")
    case (Inl e)
    with ne have "e \<noteq> OutOfFuel" by simp
    with Inl Inr show ?thesis by (simp add: getDisplayActivities_fuel_forEach)
  next
    case (Inr wz)
    with \<open>topLevelActivitiesOf cs ds (sudsActivitiesOf sudsId all) = Inr roots\<close>
    show ?thesis by (simp add: getDisplayActivities_fuel_forEach)
  qed
qed

lemma getDisplayActivities_fuel_more:
  assumes "length (sudsActivitiesOf sudsId all) < fuel"
  shows "getDisplayActivities_fuel fuel sudsId all cs ds = getDisplayActivities sudsId all cs ds"
proof (cases "topLevelActivitiesOf cs ds (sudsActivitiesOf sudsId all)")
  case (Inl e)
  then show ?thesis by (simp add: getDisplayActivities_fuel_forEach getDisplayActivities_forEach)
next
  case (Inr roots)
  let ?S = "sudsActivitiesOf sudsId all"
  have "forEachAdd (Suc (length ?S)) cs ds (activityMapOf ?S) None roots (Inr emptyWalk) \<noteq> Inl OutOfFuel"
    using Inr by (rule toplevel_ends) simp
  moreover from assms have "Suc (length ?S) \<le> fuel" by simp
  ultimately have "forEachAdd fuel cs ds (activityMapOf ?S) None roots (Inr emptyWalk) =
      forEachAdd (Suc (length ?S)) cs ds (activityMapOf ?S) None roots (Inr emptyWalk)"
    by (rule forEach_more_fuel [OF refl])
  with Inr show ?thesis by (simp add: getDisplayActivities_fuel_forEach getDisplayActivities_forEach)
qed

lemma getDisplayActivities_resolves:
  assumes "\<forall>x \<in> set (sudsActivitiesOf sudsId all). categoryResolves ds (category x)"
  shows "\<exists>out. getDisplayActivities sudsId all cs ds = Inr out"
proof -
  let ?S = "sudsActivitiesOf sudsId all"
  from topLevel_resolves [OF assms] obtain roots where roots: "topLevelActivitiesOf cs ds ?S = Inr roots"
    by blast
  have "forEachAdd (Suc (length ?S)) cs ds (activityMapOf ?S) None roots (Inr emptyWalk) \<noteq> Inl OutOfFuel"
    using roots by (rule toplevel_ends) simp
  moreover have "forEachAdd (Suc (length ?S)) cs ds (activityMapOf ?S) None roots (Inr emptyWalk) \<noteq> Inl TypeError"
    using assms by (rule forEach_no_TypeError)
  ultimately have "\<exists>wz.
    forEachAdd (Suc (length ?S)) cs ds (activityMapOf ?S) None roots (Inr emptyWalk) = Inr wz"
  proof (cases "forEachAdd (Suc (length ?S)) cs ds (activityMapOf ?S) None roots (Inr emptyWalk)")
    case (Inl e)
    assume "forEachAdd (Suc (length ?S)) cs ds (activityMapOf ?S) None roots (Inr emptyWalk) \<noteq> Inl OutOfFuel"
      and "forEachAdd (Suc (length ?S)) cs ds (activityMapOf ?S) None roots (Inr emptyWalk) \<noteq> Inl TypeError"
    with Inl show ?thesis by (cases e) simp_all
  next
    case (Inr wz)
    then show ?thesis by blast
  qed
  then obtain wz where
    "forEachAdd (Suc (length ?S)) cs ds (activityMapOf ?S) None roots (Inr emptyWalk) = Inr wz"
    by blast
  with roots show ?thesis by (simp add: getDisplayActivities_forEach)
qed

lemma resolved_claimed:
  assumes "a \<in> set S" and "d \<in> set (resolvedDependents (activityMapOf S) a)"
  shows "d \<in> set S \<and> id_act d \<in> allDependentIdsOf S \<and> id_act d \<in> set (dependentsOrEmpty a)"
proof -
  from assms(2) obtain k where k: "k \<in> set (dependentsOrEmpty a)" "activityMapOf S k = Some d"
    by (auto simp: resolvedDependents_iff)
  from k(2) have "d \<in> set S" "id_act d = k" by (simp_all add: activityMapOf_SomeD)
  with k(1) assms(1) show ?thesis by (auto simp: allDependentIdsOf_iff)
qed

lemma resolver_result:
  assumes roots: "topLevelActivitiesOf cs ds S = Inr roots"
    and run: "forEachAdd fuel cs ds (activityMapOf S) None roots (Inr emptyWalk) = Inr wz"
  shows "distinct (map (id_act \<circ> fst) (displayedOrder wz))"
    and "processedActivityIds wz = (id_act \<circ> fst) ` set (displayedOrder wz)"
    and "\<forall>e \<in> set (displayedOrder wz). fst e \<in> set S \<and>
           (snd e \<longleftrightarrow> id_act (fst e) \<in> allDependentIdsOf S \<or> isDependent (fst e) = Some True)"
    and "\<forall>a \<in> set S. id_act a \<notin> allDependentIdsOf S \<longrightarrow> id_act a \<in> processedActivityIds wz"
    and "\<forall>e \<in> set (displayedOrder wz). \<forall>d \<in> set (resolvedDependents (activityMapOf S) (fst e)).
           id_act d \<in> processedActivityIds wz"
proof -
  from run have "extends emptyWalk wz" by (rule forEach_extends)
  then obtain new where new: "displayedOrder wz = displayedOrder emptyWalk @ new"
    "processedActivityIds wz = processedActivityIds emptyWalk \<union> (id_act \<circ> fst) ` set new"
    "distinct (map (id_act \<circ> fst) new)"
    unfolding extends_def by blast
  from new(1) have eq: "displayedOrder wz = new" by (simp add: emptyWalk_def)
  from new(3) eq show "distinct (map (id_act \<circ> fst) (displayedOrder wz))" by simp
  from new(2) eq show "processedActivityIds wz = (id_act \<circ> fst) ` set (displayedOrder wz)"
    by (simp add: emptyWalk_def)
next
  let ?E = "\<lambda>e :: MaintenanceActivity \<times> bool. fst e \<in> set S \<and>
      (snd e \<longleftrightarrow> id_act (fst e) \<in> allDependentIdsOf S \<or> isDependent (fst e) = Some True)"
  have step: "?E (d, True)"
    if "?E (a, g)" and d: "d \<in> set (resolvedDependents (activityMapOf S) a)" for a g d
  proof -
    from that(1) have "a \<in> set S" by simp
    from resolved_claimed [OF this d] show ?thesis by simp
  qed
  have "\<forall>d \<in> set roots. ?E (d, isDependentOrFalse d None)"
    using topLevel_iff [OF roots] by (simp add: isDependentOrFalse_None)
  moreover have "\<forall>e \<in> set (displayedOrder emptyWalk). ?E e" by (simp add: emptyWalk_def)
  moreover have "forEachAdd fuel cs ds (activityMapOf S) None roots (Inr emptyWalk) = Inr wz \<longrightarrow>
      (\<forall>d \<in> set roots. ?E (d, isDependentOrFalse d None)) \<longrightarrow>
      (\<forall>e \<in> set (displayedOrder emptyWalk). ?E e) \<longrightarrow> (\<forall>e \<in> set (displayedOrder wz). ?E e)"
    by (rule walk_entries [where E = ?E and am = "activityMapOf S", THEN conjunct2]) (rule step)
  ultimately show "\<forall>e \<in> set (displayedOrder wz). ?E e"
    using run by blast
next
  have "forEachAdd fuel cs ds (activityMapOf S) None roots (Inr emptyWalk) = Inr wz \<longrightarrow>
      closedSince (activityMapOf S) emptyWalk wz \<and> (\<forall>d \<in> set roots. id_act d \<in> processedActivityIds wz)"
    by (rule walk_closure [THEN conjunct2])
  with run have c: "closedSince (activityMapOf S) emptyWalk wz"
    and t: "\<forall>d \<in> set roots. id_act d \<in> processedActivityIds wz"
    by simp_all
  from t show "\<forall>a \<in> set S. id_act a \<notin> allDependentIdsOf S \<longrightarrow> id_act a \<in> processedActivityIds wz"
    using topLevel_iff [OF roots] by simp
  from c show "\<forall>e \<in> set (displayedOrder wz). \<forall>d \<in> set (resolvedDependents (activityMapOf S) (fst e)).
           id_act d \<in> processedActivityIds wz"
    by (simp add: closedSince_def emptyWalk_def)
qed

lemma reachable_in: "reachableFromRoot S a \<Longrightarrow> a \<in> set S"
  by (induction rule: reachableFromRoot.induct) simp_all

lemma sudsActivitiesOf_iff:
  "a \<in> set (sudsActivitiesOf sudsId all) \<longleftrightarrow> a \<in> set all \<and> sudsTypeId a = sudsId \<and> applies a"
  by (auto simp: sudsActivitiesOf_def)

lemma entry_by_id:
  assumes "distinct (map id_act S)" and "\<forall>e \<in> set out. fst e \<in> set S"
    and "a \<in> set S" and "id_act a \<in> (id_act \<circ> fst) ` set out"
  shows "\<exists>g. (a, g) \<in> set out"
proof -
  from assms(4) obtain b g where bg: "(b, g) \<in> set out" "id_act b = id_act a" by auto
  with assms(2) have "b \<in> set S" by auto
  with assms(1,3) bg(2) have "b = a" by (auto simp: distinct_map inj_on_def)
  with bg(1) show ?thesis by blast
qed

lemma once_if_distinct:
  assumes "distinct (map (id_act \<circ> fst) out)" and "(a, g) \<in> set out"
  shows "length (filter (\<lambda>e. fst e = a) out) = 1"
  using assms
proof (induction out)
  case Nil
  then show ?case by simp
next
  case (Cons e out)
  show ?case
  proof (cases "fst e = a")
    case True
    have "fst e' \<noteq> a" if "e' \<in> set out" for e'
    proof
      assume "fst e' = a"
      with True have "(id_act \<circ> fst) e' = (id_act \<circ> fst) e" by simp
      with that have "(id_act \<circ> fst) e \<in> (id_act \<circ> fst) ` set out" by (metis imageI)
      with Cons.prems(1) show False by simp
    qed
    then have "filter (\<lambda>e. fst e = a) out = []" by (simp add: filter_empty_conv)
    with True show ?thesis by simp
  next
    case False
    with Cons.prems(2) have "(a, g) \<in> set out" by auto
    with Cons.IH Cons.prems(1) False show ?thesis by simp
  qed
qed

lemma resolver_reachable:
  assumes roots: "topLevelActivitiesOf cs ds S = Inr roots"
    and run: "forEachAdd fuel cs ds (activityMapOf S) None roots (Inr emptyWalk) = Inr wz"
  shows "\<forall>e \<in> set (displayedOrder wz). reachableFromRoot S (fst e)"
proof -
  let ?E = "\<lambda>e :: MaintenanceActivity \<times> bool. reachableFromRoot S (fst e)"
  have step: "?E (d, True)"
    if "?E (a, g)" and d: "d \<in> set (resolvedDependents (activityMapOf S) a)" for a g d
  proof -
    from that(1) have r: "reachableFromRoot S a" by simp
    then have "a \<in> set S" by (rule reachable_in)
    from resolved_claimed [OF this d] r show ?thesis
      by (auto intro: reachableFromRoot.dependent)
  qed
  have "\<forall>d \<in> set roots. ?E (d, isDependentOrFalse d None)"
    using topLevel_iff [OF roots] by (simp add: reachableFromRoot.root)
  moreover have "\<forall>e \<in> set (displayedOrder emptyWalk). ?E e" by (simp add: emptyWalk_def)
  moreover have "forEachAdd fuel cs ds (activityMapOf S) None roots (Inr emptyWalk) = Inr wz \<longrightarrow>
      (\<forall>d \<in> set roots. ?E (d, isDependentOrFalse d None)) \<longrightarrow>
      (\<forall>e \<in> set (displayedOrder emptyWalk). ?E e) \<longrightarrow> (\<forall>e \<in> set (displayedOrder wz). ?E e)"
    by (rule walk_entries [where E = ?E and am = "activityMapOf S", THEN conjunct2]) (rule step)
  ultimately show ?thesis using run by blast
qed

lemma resolver_complete:
  assumes roots: "topLevelActivitiesOf cs ds S = Inr roots"
    and run: "forEachAdd fuel cs ds (activityMapOf S) None roots (Inr emptyWalk) = Inr wz"
    and dist: "distinct (map id_act S)"
    and reach: "reachableFromRoot S a"
  shows "\<exists>g. (a, g) \<in> set (displayedOrder wz)"
  using reach
proof (induction rule: reachableFromRoot.induct)
  case (root a)
  from resolver_result(4) [OF roots run] root have "id_act a \<in> processedActivityIds wz" by blast
  then have "id_act a \<in> (id_act \<circ> fst) ` set (displayedOrder wz)"
    using resolver_result(2) [OF roots run] by simp
  with dist root(1) resolver_result(3) [OF roots run] show ?case
    by (intro entry_by_id [where S = S]) auto
next
  case (dependent a d)
  then obtain g where ag: "(a, g) \<in> set (displayedOrder wz)" by blast
  from dist dependent(2) have "activityMapOf S (id_act d) = Some d"
    by (rule activityMapOf_distinct)
  with dependent(3) have "d \<in> set (resolvedDependents (activityMapOf S) a)"
    by (auto simp: resolvedDependents_iff)
  with resolver_result(5) [OF roots run] ag have "id_act d \<in> processedActivityIds wz" by force
  then have "id_act d \<in> (id_act \<circ> fst) ` set (displayedOrder wz)"
    using resolver_result(2) [OF roots run] by simp
  with dist dependent(2) resolver_result(3) [OF roots run] show ?case
    by (intro entry_by_id [where S = S]) auto
qed

lemma walk_after_referrer:
  assumes only: "\<And>z. z \<in> set S \<Longrightarrow> y \<in> set (dependentsOrEmpty z) \<Longrightarrow> id_act z = x"
  shows "(addActivityAndDependents fuel cs ds (activityMapOf S) a f w = Inr w' \<longrightarrow>
            a \<in> set S \<longrightarrow> (id_act a = y \<longrightarrow> x \<in> processedActivityIds w) \<longrightarrow>
            (y \<in> processedActivityIds w \<longrightarrow> x \<in> processedActivityIds w) \<longrightarrow>
            (y \<in> processedActivityIds w' \<longrightarrow> x \<in> processedActivityIds w') \<and>
            processedActivityIds w \<subseteq> processedActivityIds w') \<and>
         (forEachAdd fuel cs ds (activityMapOf S) g acts (Inr w) = Inr w' \<longrightarrow>
            set acts \<subseteq> set S \<longrightarrow> (y \<in> id_act ` set acts \<longrightarrow> x \<in> processedActivityIds w) \<longrightarrow>
            (y \<in> processedActivityIds w \<longrightarrow> x \<in> processedActivityIds w) \<longrightarrow>
            (y \<in> processedActivityIds w' \<longrightarrow> x \<in> processedActivityIds w') \<and>
            processedActivityIds w \<subseteq> processedActivityIds w')"
proof (rule walk_rule [where
      Q = "\<lambda>(a :: MaintenanceActivity) (f :: bool option) (w :: walk) (w' :: walk).
            a \<in> set S \<longrightarrow> (id_act a = y \<longrightarrow> x \<in> processedActivityIds w) \<longrightarrow>
            (y \<in> processedActivityIds w \<longrightarrow> x \<in> processedActivityIds w) \<longrightarrow>
            (y \<in> processedActivityIds w' \<longrightarrow> x \<in> processedActivityIds w') \<and>
            processedActivityIds w \<subseteq> processedActivityIds w'"
      and R = "\<lambda>(g :: bool option) (acts :: MaintenanceActivity list) (w :: walk) (w' :: walk).
            set acts \<subseteq> set S \<longrightarrow> (y \<in> id_act ` set acts \<longrightarrow> x \<in> processedActivityIds w) \<longrightarrow>
            (y \<in> processedActivityIds w \<longrightarrow> x \<in> processedActivityIds w) \<longrightarrow>
            (y \<in> processedActivityIds w' \<longrightarrow> x \<in> processedActivityIds w') \<and>
            processedActivityIds w \<subseteq> processedActivityIds w'"])
  fix a :: MaintenanceActivity and f :: "bool option" and w :: walk
  show "a \<in> set S \<longrightarrow> (id_act a = y \<longrightarrow> x \<in> processedActivityIds w) \<longrightarrow>
            (y \<in> processedActivityIds w \<longrightarrow> x \<in> processedActivityIds w) \<longrightarrow>
            (y \<in> processedActivityIds w \<longrightarrow> x \<in> processedActivityIds w) \<and>
            processedActivityIds w \<subseteq> processedActivityIds w"
    by blast
next
  fix a :: MaintenanceActivity and f :: "bool option" and w w' :: walk
    and sds :: "MaintenanceActivity list"
  let ?p = "pushActivity a f w"
  assume s: "sortedDependentsOf cs ds (activityMapOf S) a = Inr sds"
    and r: "set sds \<subseteq> set S \<longrightarrow>
      (y \<in> id_act ` set sds \<longrightarrow> x \<in> processedActivityIds ?p) \<longrightarrow>
      (y \<in> processedActivityIds ?p \<longrightarrow> x \<in> processedActivityIds ?p) \<longrightarrow>
      (y \<in> processedActivityIds w' \<longrightarrow> x \<in> processedActivityIds w') \<and>
      processedActivityIds ?p \<subseteq> processedActivityIds w'"
  from s have sds: "set sds = set (resolvedDependents (activityMapOf S) a)"
    by (rule sortedDependentsOf_set)
  have "(y \<in> processedActivityIds w' \<longrightarrow> x \<in> processedActivityIds w') \<and>
            processedActivityIds w \<subseteq> processedActivityIds w'"
    if a: "a \<in> set S" and ay: "id_act a = y \<longrightarrow> x \<in> processedActivityIds w"
      and k: "y \<in> processedActivityIds w \<longrightarrow> x \<in> processedActivityIds w"
  proof -
    have 1: "set sds \<subseteq> set S"
      using resolved_claimed [OF a] sds by blast
    have 2: "y \<in> id_act ` set sds \<longrightarrow> x \<in> processedActivityIds ?p"
    proof
      assume "y \<in> id_act ` set sds"
      then obtain d where "d \<in> set (resolvedDependents (activityMapOf S) a)" "y = id_act d"
        using sds by blast
      with resolved_claimed [OF a] have "y \<in> set (dependentsOrEmpty a)" by blast
      with only a have "id_act a = x" by blast
      then show "x \<in> processedActivityIds ?p" by simp
    qed
    have 3: "y \<in> processedActivityIds ?p \<longrightarrow> x \<in> processedActivityIds ?p"
      using ay k by auto
    from r 1 2 3 have "(y \<in> processedActivityIds w' \<longrightarrow> x \<in> processedActivityIds w') \<and>
      processedActivityIds ?p \<subseteq> processedActivityIds w'" by blast
    then show ?thesis by auto
  qed
  then show "a \<in> set S \<longrightarrow> (id_act a = y \<longrightarrow> x \<in> processedActivityIds w) \<longrightarrow>
            (y \<in> processedActivityIds w \<longrightarrow> x \<in> processedActivityIds w) \<longrightarrow>
            (y \<in> processedActivityIds w' \<longrightarrow> x \<in> processedActivityIds w') \<and>
            processedActivityIds w \<subseteq> processedActivityIds w'"
    by blast
next
  fix g :: "bool option" and w :: walk
  show "set ([] :: MaintenanceActivity list) \<subseteq> set S \<longrightarrow> (y \<in> id_act ` set ([] :: MaintenanceActivity list) \<longrightarrow> x \<in> processedActivityIds w) \<longrightarrow>
            (y \<in> processedActivityIds w \<longrightarrow> x \<in> processedActivityIds w) \<longrightarrow>
            (y \<in> processedActivityIds w \<longrightarrow> x \<in> processedActivityIds w) \<and>
            processedActivityIds w \<subseteq> processedActivityIds w"
    by blast
next
  fix g :: "bool option" and d :: MaintenanceActivity and acts :: "MaintenanceActivity list"
    and w w1 w' :: walk
  assume q: "d \<in> set S \<longrightarrow> (id_act d = y \<longrightarrow> x \<in> processedActivityIds w) \<longrightarrow>
            (y \<in> processedActivityIds w \<longrightarrow> x \<in> processedActivityIds w) \<longrightarrow>
            (y \<in> processedActivityIds w1 \<longrightarrow> x \<in> processedActivityIds w1) \<and>
            processedActivityIds w \<subseteq> processedActivityIds w1"
    and r: "set acts \<subseteq> set S \<longrightarrow> (y \<in> id_act ` set acts \<longrightarrow> x \<in> processedActivityIds w1) \<longrightarrow>
            (y \<in> processedActivityIds w1 \<longrightarrow> x \<in> processedActivityIds w1) \<longrightarrow>
            (y \<in> processedActivityIds w' \<longrightarrow> x \<in> processedActivityIds w') \<and>
            processedActivityIds w1 \<subseteq> processedActivityIds w'"
  have "(y \<in> processedActivityIds w' \<longrightarrow> x \<in> processedActivityIds w') \<and>
            processedActivityIds w \<subseteq> processedActivityIds w'"
    if sub: "set (d # acts) \<subseteq> set S" and pre: "y \<in> id_act ` set (d # acts) \<longrightarrow> x \<in> processedActivityIds w"
      and k: "y \<in> processedActivityIds w \<longrightarrow> x \<in> processedActivityIds w"
  proof -
    from sub have d: "d \<in> set S" and acts: "set acts \<subseteq> set S" by simp_all
    from pre have "id_act d = y \<longrightarrow> x \<in> processedActivityIds w" by auto
    with q d k have 1: "y \<in> processedActivityIds w1 \<longrightarrow> x \<in> processedActivityIds w1"
      and m: "processedActivityIds w \<subseteq> processedActivityIds w1" by blast+
    from pre m have "y \<in> id_act ` set acts \<longrightarrow> x \<in> processedActivityIds w1" by auto
    with r acts 1 have "(y \<in> processedActivityIds w' \<longrightarrow> x \<in> processedActivityIds w') \<and>
            processedActivityIds w1 \<subseteq> processedActivityIds w'" by blast
    with m show ?thesis by blast
  qed
  then show "set (d # acts) \<subseteq> set S \<longrightarrow> (y \<in> id_act ` set (d # acts) \<longrightarrow> x \<in> processedActivityIds w) \<longrightarrow>
            (y \<in> processedActivityIds w \<longrightarrow> x \<in> processedActivityIds w) \<longrightarrow>
            (y \<in> processedActivityIds w' \<longrightarrow> x \<in> processedActivityIds w') \<and>
            processedActivityIds w \<subseteq> processedActivityIds w'"
    by blast
qed

lemma topLevel_distinct:
  "topLevelActivitiesOf cs ds S = Inr roots \<Longrightarrow> distinct S \<Longrightarrow> distinct roots"
  unfolding topLevelActivitiesOf_def by (drule sortWith_distinct) simp

lemma nested_dependent:
  assumes dist: "distinct (map id_act S)"
    and x: "X \<in> set S" "id_act X \<notin> allDependentIdsOf S"
    and first: "sortedDependentsOf cs ds (activityMapOf S) X = Inr (Y # rest)"
    and only: "\<forall>Z \<in> set S. id_act Y \<in> set (dependentsOrEmpty Z) \<longrightarrow> Z = X"
    and roots: "topLevelActivitiesOf cs ds S = Inr roots"
    and run: "forEachAdd (Suc fuel) cs ds (activityMapOf S) None roots (Inr emptyWalk) = Inr wz"
  shows "\<exists>before after.
      displayedOrder wz = before @ (X, isDependentOrFalse X None) # (Y, True) # after"
proof -
  let ?am = "activityMapOf S"
  from first have "set (Y # rest) = set (resolvedDependents ?am X)"
    by (rule sortedDependentsOf_set)
  then have "Y \<in> set (resolvedDependents ?am X)" by auto
  from resolved_claimed [OF x(1) this]
  have y: "Y \<in> set S" "id_act Y \<in> allDependentIdsOf S" "id_act Y \<in> set (dependentsOrEmpty X)"
    by simp_all
  from x(2) y(2) have neq: "id_act Y \<noteq> id_act X" by auto
  from x have "X \<in> set roots" by (simp add: topLevel_iff [OF roots])
  then obtain pre post where top: "roots = pre @ X # post" by (meson split_list)
  from dist have "distinct S" by (simp add: distinct_map)
  with roots have "distinct roots" by (rule topLevel_distinct)
  with top have xpre: "X \<notin> set pre" by simp
  have preS: "set pre \<subseteq> set roots" using top by auto
  from run top have "forEachAdd (Suc fuel) cs ds ?am None (pre @ X # post) (Inr emptyWalk) = Inr wz"
    by simp
  then obtain w1 where w1: "forEachAdd (Suc fuel) cs ds ?am None pre (Inr emptyWalk) = Inr w1"
    and r1: "forEachAdd (Suc fuel) cs ds ?am None (X # post) (Inr w1) = Inr wz"
    using forEachAdd_appendD by blast
  from r1 obtain w2 where w2: "addActivityAndDependents (Suc fuel) cs ds ?am X None w1 = Inr w2"
    and r2: "forEachAdd (Suc fuel) cs ds ?am None post (Inr w2) = Inr wz"
    using forEachAdd_ConsD by blast
  \<comment> \<open>nothing with the id of X has been visited before the turn of X\<close>
  let ?E = "\<lambda>e :: MaintenanceActivity \<times> bool.
      fst e \<in> set S \<and> (id_act (fst e) \<in> allDependentIdsOf S \<or> fst e \<in> set pre)"
  have step: "?E (d, True)"
    if "?E (a, g)" and d: "d \<in> set (resolvedDependents ?am a)" for a g d
  proof -
    from that(1) have "a \<in> set S" by simp
    from resolved_claimed [OF this d] show ?thesis by simp
  qed
  have "\<forall>d \<in> set pre. ?E (d, isDependentOrFalse d None)"
    using preS topLevel_iff [OF roots] by auto
  moreover have "\<forall>e \<in> set (displayedOrder emptyWalk). ?E e" by (simp add: emptyWalk_def)
  moreover have "forEachAdd (Suc fuel) cs ds ?am None pre (Inr emptyWalk) = Inr w1 \<longrightarrow>
      (\<forall>d \<in> set pre. ?E (d, isDependentOrFalse d None)) \<longrightarrow>
      (\<forall>e \<in> set (displayedOrder emptyWalk). ?E e) \<longrightarrow> (\<forall>e \<in> set (displayedOrder w1). ?E e)"
    by (rule walk_entries [where E = ?E and cs = cs and ds = ds and am = ?am,
          THEN conjunct2]) (rule step)
  ultimately have ent: "\<forall>e \<in> set (displayedOrder w1). ?E e" using w1 by blast
  from forEach_extends [OF w1] have p1: "processedActivityIds w1 = (id_act \<circ> fst) ` set (displayedOrder w1)"
    by (auto simp: extends_def emptyWalk_def)
  have xnot: "id_act X \<notin> processedActivityIds w1"
  proof
    assume "id_act X \<in> processedActivityIds w1"
    with p1 obtain b g where bg: "(b, g) \<in> set (displayedOrder w1)" "id_act b = id_act X" by auto
    with ent have b: "b \<in> set S" "id_act b \<in> allDependentIdsOf S \<or> b \<in> set pre"
      by auto
    from dist b(1) x(1) bg(2) have "b = X" by (auto simp: distinct_map inj_on_def)
    with b(2) x(2) xpre show False by auto
  qed
  \<comment> \<open>and Y can only be visited after its single referrer X\<close>
  have onlyid: "\<And>z. z \<in> set S \<Longrightarrow> id_act Y \<in> set (dependentsOrEmpty z) \<Longrightarrow> id_act z = id_act X"
    using only by blast
  have "forEachAdd (Suc fuel) cs ds ?am None pre (Inr emptyWalk) = Inr w1 \<longrightarrow>
      set pre \<subseteq> set S \<longrightarrow> (id_act Y \<in> id_act ` set pre \<longrightarrow> id_act X \<in> processedActivityIds emptyWalk) \<longrightarrow>
      (id_act Y \<in> processedActivityIds emptyWalk \<longrightarrow> id_act X \<in> processedActivityIds emptyWalk) \<longrightarrow>
      (id_act Y \<in> processedActivityIds w1 \<longrightarrow> id_act X \<in> processedActivityIds w1) \<and>
      processedActivityIds emptyWalk \<subseteq> processedActivityIds w1"
    by (rule walk_after_referrer [where S = S and y = "id_act Y" and x = "id_act X", THEN conjunct2])
      (rule onlyid)
  moreover have "set pre \<subseteq> set S" using preS topLevel_iff [OF roots] by auto
  moreover have "id_act Y \<notin> id_act ` set pre" using preS y(2) topLevel_iff [OF roots] by auto
  ultimately have "id_act Y \<in> processedActivityIds w1 \<longrightarrow> id_act X \<in> processedActivityIds w1"
    using w1 by (simp add: emptyWalk_def)
  with xnot have ynot: "id_act Y \<notin> processedActivityIds w1" by blast
  \<comment> \<open>the turn of X: X is pushed, then Y, the first of its sorted dependents\<close>
  from add_visitD [OF w2 xnot] first
  have "forEachAdd fuel cs ds ?am (Some True) (Y # rest) (Inr (pushActivity X None w1)) = Inr w2"
    by simp
  then obtain w3 where w3: "addActivityAndDependents fuel cs ds ?am Y (Some True) (pushActivity X None w1) = Inr w3"
    and r3: "forEachAdd fuel cs ds ?am (Some True) rest (Inr w3) = Inr w2"
    using forEachAdd_ConsD by blast
  from ynot neq have "id_act Y \<notin> processedActivityIds (pushActivity X None w1)" by simp
  from add_first [OF w3 this] obtain more where
    "displayedOrder w3 = displayedOrder (pushActivity X None w1) @ (Y, isDependentOrFalse Y (Some True)) # more" ..
  then have d3: "displayedOrder w3 =
      displayedOrder w1 @ (X, isDependentOrFalse X None) # (Y, True) # more"
    by simp
  from forEach_extends [OF r3] obtain n2 where "displayedOrder w2 = displayedOrder w3 @ n2"
    using extends_display by blast
  moreover from forEach_extends [OF r2] obtain n3 where "displayedOrder wz = displayedOrder w2 @ n3"
    using extends_display by blast
  ultimately have "displayedOrder wz =
      displayedOrder w1 @ (X, isDependentOrFalse X None) # (Y, True) # (more @ n2 @ n3)"
    using d3 by simp
  then show ?thesis by blast
qed














lemmas ex_defs = exActivity_def exCategories_def exDefined_def sudsActivitiesOf_def
  allDependentIdsOf_def dependentsOrEmpty_def activityMapOf_def sortedDependentsOf_def
  resolvedDependents_def List.map_filter_def compareActivities_def activityIndex_def
  objectPrototypeNames_def categoryResolves_def isDependentOrFalse_def
  getDisplayActivities_def getDisplayActivities_fuel_def addActivityAndDependents.simps(2)

lemma findIndex_ge: "- 1 \<le> findIndex p xs"
  by (induction xs) (auto simp: Let_def)

lemma findIndex_absent: "(\<forall>x \<in> set xs. \<not> p x) \<Longrightarrow> findIndex p xs = - 1"
  by (induction xs) (auto simp: Let_def)

lemma findIndex_last:
  "(\<forall>x \<in> set front. \<not> p x) \<Longrightarrow> p s \<Longrightarrow> findIndex p (front @ [s]) = int (length front)"
  by (induction front) (auto simp: Let_def)

lemma batch_absent:
  "sudsId \<notin> id_suds ` set xs \<Longrightarrow> handleMoveSudsType_batch sudsId direction xs = None"
proof -
  assume "sudsId \<notin> id_suds ` set xs"
  then have "findIndex (\<lambda>s. id_suds s = sudsId) xs = - 1"
    by (intro findIndex_absent) auto
  then show ?thesis by (simp add: handleMoveSudsType_batch_def)
qed

lemma handleMoveSudsType_noop:
  "handleMoveSudsType_batch sudsId direction xs = None \<Longrightarrow>
     handleMoveSudsType rejection sudsId direction xs a = a"
  by (simp add: handleMoveSudsType_def)

lemma batch_first_up: "handleMoveSudsType_batch (id_suds s) ''up'' (s # rest) = None"
  by (simp add: handleMoveSudsType_batch_def)

lemma batch_last_down:
  assumes "id_suds s \<notin> id_suds ` set front"
  shows "handleMoveSudsType_batch (id_suds s) ''down'' (front @ [s]) = None"
proof -
  have "findIndex (\<lambda>t. id_suds t = id_suds s) (front @ [s]) = int (length front)"
  proof (rule findIndex_last)
    show "\<forall>x \<in> set front. \<not> id_suds x = id_suds s" using assms by (metis imageI)
    show "id_suds s = id_suds s" ..
  qed
  then show ?thesis by (simp add: handleMoveSudsType_batch_def)
qed

lemma batch_middle_up:
  assumes "id_suds A \<noteq> id_suds B" "order A = Some 0" "order B = Some 1" "order C = Some 2"
  shows "handleMoveSudsType_batch (id_suds B) ''up'' [A, B, C] =
           Some ([B, A, C], [(id_suds B, 0), (id_suds A, 1)])"
  using assms by (simp add: handleMoveSudsType_batch_def)

lemma commit_middle_up:
  assumes "id_suds A \<noteq> id_suds B" "order A = Some 0" "order B = Some 1" "order C = Some 2"
  shows "handleMoveSudsType None (id_suds B) ''up'' [A, B, C] a =
           a\<lparr>sudsTypesCollection :=
               applyOrderUpdate (id_suds A, 1)
                 (applyOrderUpdate (id_suds B, 0) (sudsTypesCollection a))\<rparr>"
  by (simp add: handleMoveSudsType_def batch_middle_up [OF assms] executeBatch_def)

lemma stored_middle_up:
  assumes "id_suds A \<noteq> id_suds B"
    and "coll (id_suds A) = Some A" and "coll (id_suds B) = Some B"
  shows "applyOrderUpdate (id_suds A, 1) (applyOrderUpdate (id_suds B, 0) coll) =
           coll(id_suds B \<mapsto> B\<lparr>order := Some 0\<rparr>, id_suds A \<mapsto> A\<lparr>order := Some 1\<rparr>)"
  using assms by (simp add: applyOrderUpdate_def)







lemma raises_example:
  "getDisplayActivities ''s1''
     [exActivity ''k'' ''constructor'' ''Sweep'' True [],
      exActivity ''u'' ''constructor'' ''Thing'' True []] exCategories exDefined = Inl TypeError"
  by (simp add: ex_defs)

section \<open>The resolver\<close>

text \<open>
  Claim C2. For every input the call of \<open>getDisplayActivities\<close> ends, and no record id occurs twice in an
  output, whatever the \<open>dependentActivities\<close> edges are, cycles included. The nesting of
  \<open>addActivityAndDependents\<close> never exceeds the number of applicable records of the installation
  type plus one: with that fuel the result is never \<open>OutOfFuel\<close>, and every larger fuel gives
  the same result. The call ends with an output whenever the lookups of the comparator
  resolve for the applicable records of the installation type; the only other way for it to
  end is the \<open>TypeError\<close> of such a lookup.
\<close>

theorem getDisplayActivities_terminates_without_duplicates:
  "getDisplayActivities sudsId allMaintenanceActivities categories definedActivityNames \<noteq> Inl OutOfFuel \<and>
   (length (filter (\<lambda>act. sudsTypeId act = sudsId \<and> applies act) allMaintenanceActivities) < fuel \<longrightarrow>
      getDisplayActivities_fuel fuel sudsId allMaintenanceActivities categories definedActivityNames =
      getDisplayActivities sudsId allMaintenanceActivities categories definedActivityNames) \<and>
   (getDisplayActivities sudsId allMaintenanceActivities categories definedActivityNames = Inr out \<longrightarrow>
      distinct (map (id_act \<circ> fst) out)) \<and>
   ((\<forall>act \<in> set allMaintenanceActivities. sudsTypeId act = sudsId \<and> applies act \<longrightarrow>
        categoryResolves definedActivityNames (category act)) \<longrightarrow>
      (\<exists>res. getDisplayActivities sudsId allMaintenanceActivities categories definedActivityNames = Inr res \<and>
             distinct (map (id_act \<circ> fst) res)))"
proof -
  let ?S = "sudsActivitiesOf sudsId allMaintenanceActivities"
  have S: "filter (\<lambda>act. sudsTypeId act = sudsId \<and> applies act) allMaintenanceActivities = ?S"
    by (simp add: sudsActivitiesOf_def)
  have 1: "getDisplayActivities sudsId allMaintenanceActivities categories definedActivityNames \<noteq> Inl OutOfFuel"
    unfolding getDisplayActivities_def S by (rule getDisplayActivities_fuel_ends) simp
  have 2: "getDisplayActivities_fuel fuel sudsId allMaintenanceActivities categories definedActivityNames =
      getDisplayActivities sudsId allMaintenanceActivities categories definedActivityNames"
    if "length ?S < fuel"
    using that by (rule getDisplayActivities_fuel_more)
  have 3: "distinct (map (id_act \<circ> fst) res)"
    if "getDisplayActivities sudsId allMaintenanceActivities categories definedActivityNames = Inr res"
    for res
  proof -
    from getDisplayActivities_InrD [OF that] obtain roots wz where
      r: "topLevelActivitiesOf categories definedActivityNames ?S = Inr roots"
      and w: "forEachAdd (Suc (length ?S)) categories definedActivityNames (activityMapOf ?S) None roots
           (Inr emptyWalk) = Inr wz"
      and o: "res = displayedOrder wz"
      by blast
    from resolver_result(1) [OF r w] o show ?thesis by simp
  qed
  have 4: "\<exists>res. getDisplayActivities sudsId allMaintenanceActivities categories definedActivityNames = Inr res \<and>
             distinct (map (id_act \<circ> fst) res)"
    if "\<forall>act \<in> set allMaintenanceActivities. sudsTypeId act = sudsId \<and> applies act \<longrightarrow>
        categoryResolves definedActivityNames (category act)"
  proof -
    from that have "\<forall>x \<in> set ?S. categoryResolves definedActivityNames (category x)"
      by (simp add: sudsActivitiesOf_iff)
    from getDisplayActivities_resolves [OF this] obtain res where
      "getDisplayActivities sudsId allMaintenanceActivities categories definedActivityNames = Inr res"
      by blast
    with 3 show ?thesis by blast
  qed
  from 1 2 3 4 show ?thesis unfolding S by blast
qed

text \<open>
  The theorem at a root \<open>r\<close> that leads into the cycle \<open>a \<rightarrow> b \<rightarrow> a\<close>.
\<close>

theorem getDisplayActivities_terminates_without_duplicates_witness:
  "length (filter (\<lambda>act. sudsTypeId act = ''s1'' \<and> applies act)
     [exActivity ''r'' ''Vegetation'' ''Prune'' True [''a''],
      exActivity ''a'' ''Cleaning'' ''Sweep'' True [''b''],
      exActivity ''b'' ''Cleaning'' ''Inspect'' True [''a'']]) < 7 \<and>
   getDisplayActivities_fuel 7 ''s1''
     [exActivity ''r'' ''Vegetation'' ''Prune'' True [''a''],
      exActivity ''a'' ''Cleaning'' ''Sweep'' True [''b''],
      exActivity ''b'' ''Cleaning'' ''Inspect'' True [''a'']] exCategories exDefined =
   getDisplayActivities ''s1''
     [exActivity ''r'' ''Vegetation'' ''Prune'' True [''a''],
      exActivity ''a'' ''Cleaning'' ''Sweep'' True [''b''],
      exActivity ''b'' ''Cleaning'' ''Inspect'' True [''a'']] exCategories exDefined \<and>
   getDisplayActivities ''s1''
     [exActivity ''r'' ''Vegetation'' ''Prune'' True [''a''],
      exActivity ''a'' ''Cleaning'' ''Sweep'' True [''b''],
      exActivity ''b'' ''Cleaning'' ''Inspect'' True [''a'']] exCategories exDefined =
   Inr [(exActivity ''r'' ''Vegetation'' ''Prune'' True [''a''], False),
        (exActivity ''a'' ''Cleaning'' ''Sweep'' True [''b''], True),
        (exActivity ''b'' ''Cleaning'' ''Inspect'' True [''a''], True)] \<and>
   distinct (map (id_act \<circ> fst)
       [(exActivity ''r'' ''Vegetation'' ''Prune'' True [''a''], False),
        (exActivity ''a'' ''Cleaning'' ''Sweep'' True [''b''], True),
        (exActivity ''b'' ''Cleaning'' ''Inspect'' True [''a''], True)]) \<and>
   list_all (\<lambda>act. categoryResolves exDefined (category act))
     [exActivity ''r'' ''Vegetation'' ''Prune'' True [''a''],
      exActivity ''a'' ''Cleaning'' ''Sweep'' True [''b''],
      exActivity ''b'' ''Cleaning'' ''Inspect'' True [''a'']] \<and>
   (\<exists>res. getDisplayActivities ''s1''
     [exActivity ''r'' ''Vegetation'' ''Prune'' True [''a''],
      exActivity ''a'' ''Cleaning'' ''Sweep'' True [''b''],
      exActivity ''b'' ''Cleaning'' ''Inspect'' True [''a'']] exCategories exDefined = Inr res \<and>
      distinct (map (id_act \<circ> fst) res))"
proof -
  let ?all = "[exActivity ''r'' ''Vegetation'' ''Prune'' True [''a''],
      exActivity ''a'' ''Cleaning'' ''Sweep'' True [''b''],
      exActivity ''b'' ''Cleaning'' ''Inspect'' True [''a'']]"
  let ?out = "[(exActivity ''r'' ''Vegetation'' ''Prune'' True [''a''], False),
        (exActivity ''a'' ''Cleaning'' ''Sweep'' True [''b''], True),
        (exActivity ''b'' ''Cleaning'' ''Inspect'' True [''a''], True)]"
  have len: "length (filter (\<lambda>act. sudsTypeId act = ''s1'' \<and> applies act) ?all) < 7"
    by (simp add: exActivity_def)
  have run: "getDisplayActivities ''s1'' ?all exCategories exDefined = Inr ?out"
    by (simp add: ex_defs)
  have res: "\<forall>act \<in> set ?all. sudsTypeId act = ''s1'' \<and> applies act \<longrightarrow>
      categoryResolves exDefined (category act)"
    by (simp add: exActivity_def exDefined_def categoryResolves_def)
  note t = getDisplayActivities_terminates_without_duplicates [of "''s1''" ?all exCategories exDefined 7 ?out]
  from t len have "getDisplayActivities_fuel 7 ''s1'' ?all exCategories exDefined =
      getDisplayActivities ''s1'' ?all exCategories exDefined"
    by blast
  moreover from t run have "distinct (map (id_act \<circ> fst) ?out)" by blast
  moreover from t res have "\<exists>res. getDisplayActivities ''s1'' ?all exCategories exDefined = Inr res \<and>
      distinct (map (id_act \<circ> fst) res)"
    by blast
  moreover have "list_all (\<lambda>act. categoryResolves exDefined (category act)) ?all"
    by (simp add: exActivity_def exDefined_def categoryResolves_def)
  ultimately show ?thesis using len run by blast
qed

text \<open>
  Claim C1, as the code has it. When the applicable records of the installation type have
  pairwise different ids and the lookups of the comparator resolve for them,
  \<open>getDisplayActivities\<close> returns an output in which every record that is reachable from a
  top-level record (one that no applicable record of the type names as a dependent) occurs
  exactly once, and every entry is an input record of that installation type with
  \<open>applies = true\<close> that is reachable in this sense. Records that only lie on a cycle
  without a top-level entry point are not part of this statement, and neither is a call
  that a lookup ends with a \<open>TypeError\<close>.
\<close>

theorem getDisplayActivities_emits_reachable_once:
  assumes dist: "distinct (map id_act (sudsActivitiesOf sudsId allMaintenanceActivities))"
    and resolves: "\<forall>act \<in> set (sudsActivitiesOf sudsId allMaintenanceActivities).
        categoryResolves definedActivityNames (category act)"
  shows "\<exists>out. getDisplayActivities sudsId allMaintenanceActivities categories definedActivityNames = Inr out \<and>
      (\<forall>a. reachableFromRoot (sudsActivitiesOf sudsId allMaintenanceActivities) a \<longrightarrow>
           length (filter (\<lambda>e. fst e = a) out) = 1) \<and>
      (\<forall>e \<in> set out. fst e \<in> set allMaintenanceActivities \<and> sudsTypeId (fst e) = sudsId \<and>
           applies (fst e) \<and> reachableFromRoot (sudsActivitiesOf sudsId allMaintenanceActivities) (fst e))"
proof -
  let ?S = "sudsActivitiesOf sudsId allMaintenanceActivities"
  from getDisplayActivities_resolves [OF resolves] obtain out where
    out: "getDisplayActivities sudsId allMaintenanceActivities categories definedActivityNames = Inr out"
    by blast
  from getDisplayActivities_InrD [OF out] obtain roots wz where
    r: "topLevelActivitiesOf categories definedActivityNames ?S = Inr roots"
    and run: "forEachAdd (Suc (length ?S)) categories definedActivityNames (activityMapOf ?S) None roots
         (Inr emptyWalk) = Inr wz"
    and o: "out = displayedOrder wz"
    by blast
  have once: "length (filter (\<lambda>e. fst e = a) (displayedOrder wz)) = 1" if "reachableFromRoot ?S a" for a
  proof -
    from resolver_complete [OF r run dist that] obtain g where "(a, g) \<in> set (displayedOrder wz)" ..
    with resolver_result(1) [OF r run] show ?thesis by (rule once_if_distinct)
  qed
  have sound: "fst e \<in> set allMaintenanceActivities \<and> sudsTypeId (fst e) = sudsId \<and>
           applies (fst e) \<and> reachableFromRoot ?S (fst e)" if "e \<in> set (displayedOrder wz)" for e
  proof -
    from resolver_result(3) [OF r run] that have "fst e \<in> set ?S" by blast
    moreover from resolver_reachable [OF r run] that have "reachableFromRoot ?S (fst e)" by blast
    ultimately show ?thesis by (simp add: sudsActivitiesOf_iff)
  qed
  from out o once sound show ?thesis by blast
qed

text \<open>
  The theorem at a root with one dependent, next to a record that does not apply.
\<close>

theorem getDisplayActivities_emits_reachable_once_witness:
  "distinct (map id_act (sudsActivitiesOf ''s1''
      [exActivity ''x'' ''Vegetation'' ''Prune'' True [''y''],
       exActivity ''y'' ''Cleaning'' ''Inspect'' True [],
       exActivity ''n'' ''Cleaning'' ''Sweep'' False []])) \<and>
   list_all (\<lambda>act. categoryResolves exDefined (category act))
     (sudsActivitiesOf ''s1''
      [exActivity ''x'' ''Vegetation'' ''Prune'' True [''y''],
       exActivity ''y'' ''Cleaning'' ''Inspect'' True [],
       exActivity ''n'' ''Cleaning'' ''Sweep'' False []]) \<and>
   (\<exists>out. getDisplayActivities ''s1''
      [exActivity ''x'' ''Vegetation'' ''Prune'' True [''y''],
       exActivity ''y'' ''Cleaning'' ''Inspect'' True [],
       exActivity ''n'' ''Cleaning'' ''Sweep'' False []] exCategories exDefined = Inr out \<and>
      length (filter (\<lambda>e. fst e = exActivity ''x'' ''Vegetation'' ''Prune'' True [''y'']) out) = 1 \<and>
      length (filter (\<lambda>e. fst e = exActivity ''y'' ''Cleaning'' ''Inspect'' True []) out) = 1 \<and>
      (\<forall>e \<in> set out. applies (fst e)))"
proof -
  let ?x = "exActivity ''x'' ''Vegetation'' ''Prune'' True [''y'']"
  let ?y = "exActivity ''y'' ''Cleaning'' ''Inspect'' True []"
  let ?all = "[?x, ?y, exActivity ''n'' ''Cleaning'' ''Sweep'' False []]"
  have S: "sudsActivitiesOf ''s1'' ?all = [?x, ?y]"
    by (simp add: sudsActivitiesOf_def exActivity_def)
  have d: "distinct (map id_act (sudsActivitiesOf ''s1'' ?all))"
    unfolding S by (simp add: exActivity_def)
  have c: "\<forall>act \<in> set (sudsActivitiesOf ''s1'' ?all). categoryResolves exDefined (category act)"
    unfolding S by (simp add: exActivity_def exDefined_def categoryResolves_def)
  have rx: "reachableFromRoot [?x, ?y] ?x"
    by (rule reachableFromRoot.root) (simp_all add: exActivity_def allDependentIdsOf_def dependentsOrEmpty_def)
  then have "reachableFromRoot [?x, ?y] ?y"
    by (rule reachableFromRoot.dependent) (simp_all add: exActivity_def dependentsOrEmpty_def)
  with rx have r: "reachableFromRoot (sudsActivitiesOf ''s1'' ?all) ?x"
    "reachableFromRoot (sudsActivitiesOf ''s1'' ?all) ?y"
    unfolding S by simp_all
  from c have l: "list_all (\<lambda>act. categoryResolves exDefined (category act))
      (sudsActivitiesOf ''s1'' ?all)"
    by (simp only: list_all_iff)
  from getDisplayActivities_emits_reachable_once [OF d c, of exCategories] r d l
  show ?thesis by blast
qed

text \<open>
  Claim C1 as stated fails: two applicable records that name each other as dependents are
  both claimed, so there is no top-level record and the output is empty.
\<close>

theorem getDisplayActivities_drops_cycle_counterexample:
  "applies (exActivity ''a'' ''Cleaning'' ''Sweep'' True [''b'']) \<and>
   sudsTypeId (exActivity ''a'' ''Cleaning'' ''Sweep'' True [''b'']) = ''s1'' \<and>
   getDisplayActivities ''s1''
     [exActivity ''a'' ''Cleaning'' ''Sweep'' True [''b''],
      exActivity ''b'' ''Cleaning'' ''Inspect'' True [''a'']] exCategories exDefined = Inr []"
  by (simp add: ex_defs)




text \<open>
  Claim C4, as the code has it. Let the applicable records of the installation type have
  pairwise different ids and resolving lookups, let \<open>X\<close> be a top-level record
  among them whose stored \<open>isDependent\<close> field is not true, \<open>Y\<close> the first
  of the resolved dependents of \<open>X\<close> in comparator order, and \<open>X\<close> the only
  one of these records that names \<open>Y\<close>. Then the output contains \<open>X\<close>,
  marked \<open>isDependent = false\<close>, immediately followed by \<open>Y\<close>, marked
  \<open>isDependent = true\<close>, and \<open>Y\<close> occurs nowhere marked as not dependent.
\<close>

theorem getDisplayActivities_nests_first_dependent:
  assumes dist: "distinct (map id_act (sudsActivitiesOf sudsId allMaintenanceActivities))"
    and resolves: "\<forall>act \<in> set (sudsActivitiesOf sudsId allMaintenanceActivities).
        categoryResolves definedActivityNames (category act)"
    and x: "X \<in> set (sudsActivitiesOf sudsId allMaintenanceActivities)"
      "id_act X \<notin> allDependentIdsOf (sudsActivitiesOf sudsId allMaintenanceActivities)"
    and stored: "isDependent X \<noteq> Some True"
    and first: "sortedDependentsOf categories definedActivityNames
        (activityMapOf (sudsActivitiesOf sudsId allMaintenanceActivities)) X = Inr (Y # rest)"
    and only: "\<forall>Z \<in> set (sudsActivitiesOf sudsId allMaintenanceActivities).
        id_act Y \<in> set (dependentsOrEmpty Z) \<longrightarrow> Z = X"
  shows "\<exists>out before after.
      getDisplayActivities sudsId allMaintenanceActivities categories definedActivityNames = Inr out \<and>
      out = before @ (X, False) # (Y, True) # after \<and> (Y, False) \<notin> set out"
proof -
  let ?S = "sudsActivitiesOf sudsId allMaintenanceActivities"
  from getDisplayActivities_resolves [OF resolves] obtain out where
    out: "getDisplayActivities sudsId allMaintenanceActivities categories definedActivityNames = Inr out"
    by blast
  from getDisplayActivities_InrD [OF out] obtain roots wz where
    r: "topLevelActivitiesOf categories definedActivityNames ?S = Inr roots"
    and run: "forEachAdd (Suc (length ?S)) categories definedActivityNames (activityMapOf ?S) None roots
         (Inr emptyWalk) = Inr wz"
    and o: "out = displayedOrder wz"
    by blast
  from nested_dependent [OF dist x first only r run] obtain before after
    where "displayedOrder wz = before @ (X, isDependentOrFalse X None) # (Y, True) # after" by blast
  moreover from stored have "\<not> isDependentOrFalse X None" by (simp add: isDependentOrFalse_None)
  ultimately have shape: "displayedOrder wz = before @ (X, False) # (Y, True) # after" by simp
  from first have "set (Y # rest) = set (resolvedDependents (activityMapOf ?S) X)"
    by (rule sortedDependentsOf_set)
  then have "Y \<in> set (resolvedDependents (activityMapOf ?S) X)" by auto
  from resolved_claimed [OF x(1) this] have "id_act Y \<in> allDependentIdsOf ?S" by simp
  with resolver_result(3) [OF r run] have "(Y, False) \<notin> set (displayedOrder wz)" by force
  with out o shape show ?thesis by blast
qed

text \<open>
  The theorem at a root whose two dependents are named in the order \<open>z\<close>, \<open>y\<close> and
  emitted in the order \<open>y\<close>, \<open>z\<close> of the comparator.
\<close>

theorem getDisplayActivities_nests_first_dependent_witness:
  "distinct (map id_act (sudsActivitiesOf ''s1''
      [exActivity ''x'' ''Vegetation'' ''Prune'' True [''z'', ''y''],
       exActivity ''y'' ''Cleaning'' ''Sweep'' True [],
       exActivity ''z'' ''Cleaning'' ''Inspect'' True []])) \<and>
   list_all (\<lambda>act. categoryResolves exDefined (category act))
     (sudsActivitiesOf ''s1''
      [exActivity ''x'' ''Vegetation'' ''Prune'' True [''z'', ''y''],
       exActivity ''y'' ''Cleaning'' ''Sweep'' True [],
       exActivity ''z'' ''Cleaning'' ''Inspect'' True []]) \<and>
   exActivity ''x'' ''Vegetation'' ''Prune'' True [''z'', ''y''] \<in> set (sudsActivitiesOf ''s1''
      [exActivity ''x'' ''Vegetation'' ''Prune'' True [''z'', ''y''],
       exActivity ''y'' ''Cleaning'' ''Sweep'' True [],
       exActivity ''z'' ''Cleaning'' ''Inspect'' True []]) \<and>
   id_act (exActivity ''x'' ''Vegetation'' ''Prune'' True [''z'', ''y'']) \<notin> allDependentIdsOf (sudsActivitiesOf ''s1''
      [exActivity ''x'' ''Vegetation'' ''Prune'' True [''z'', ''y''],
       exActivity ''y'' ''Cleaning'' ''Sweep'' True [],
       exActivity ''z'' ''Cleaning'' ''Inspect'' True []]) \<and>
   isDependent (exActivity ''x'' ''Vegetation'' ''Prune'' True [''z'', ''y'']) \<noteq> Some True \<and>
   sortedDependentsOf exCategories exDefined (activityMapOf (sudsActivitiesOf ''s1''
      [exActivity ''x'' ''Vegetation'' ''Prune'' True [''z'', ''y''],
       exActivity ''y'' ''Cleaning'' ''Sweep'' True [],
       exActivity ''z'' ''Cleaning'' ''Inspect'' True []]))
      (exActivity ''x'' ''Vegetation'' ''Prune'' True [''z'', ''y'']) =
     Inr [exActivity ''y'' ''Cleaning'' ''Sweep'' True [],
          exActivity ''z'' ''Cleaning'' ''Inspect'' True []] \<and>
   (\<exists>out before after. getDisplayActivities ''s1''
      [exActivity ''x'' ''Vegetation'' ''Prune'' True [''z'', ''y''],
       exActivity ''y'' ''Cleaning'' ''Sweep'' True [],
       exActivity ''z'' ''Cleaning'' ''Inspect'' True []] exCategories exDefined = Inr out \<and>
      out = before @ (exActivity ''x'' ''Vegetation'' ''Prune'' True [''z'', ''y''], False)
                   # (exActivity ''y'' ''Cleaning'' ''Sweep'' True [], True) # after \<and>
      (exActivity ''y'' ''Cleaning'' ''Sweep'' True [], False) \<notin> set out)"
proof -
  let ?x = "exActivity ''x'' ''Vegetation'' ''Prune'' True [''z'', ''y'']"
  let ?y = "exActivity ''y'' ''Cleaning'' ''Sweep'' True []"
  let ?z = "exActivity ''z'' ''Cleaning'' ''Inspect'' True []"
  have S: "sudsActivitiesOf ''s1'' [?x, ?y, ?z] = [?x, ?y, ?z]"
    by (simp add: sudsActivitiesOf_def exActivity_def)
  have d: "distinct (map id_act (sudsActivitiesOf ''s1'' [?x, ?y, ?z]))"
    unfolding S by (simp add: exActivity_def)
  have c: "\<forall>act \<in> set (sudsActivitiesOf ''s1'' [?x, ?y, ?z]). categoryResolves exDefined (category act)"
    unfolding S by (simp add: exActivity_def exDefined_def categoryResolves_def)
  have x1: "?x \<in> set (sudsActivitiesOf ''s1'' [?x, ?y, ?z])"
    unfolding S by simp
  have x2: "id_act ?x \<notin> allDependentIdsOf (sudsActivitiesOf ''s1'' [?x, ?y, ?z])"
    unfolding S by (simp add: exActivity_def allDependentIdsOf_def dependentsOrEmpty_def)
  have x3: "isDependent ?x \<noteq> Some True"
    by (simp add: exActivity_def)
  have f: "sortedDependentsOf exCategories exDefined (activityMapOf (sudsActivitiesOf ''s1'' [?x, ?y, ?z])) ?x
      = Inr (?y # [?z])"
    unfolding S by (simp add: ex_defs)
  have o: "\<forall>Z \<in> set (sudsActivitiesOf ''s1'' [?x, ?y, ?z]). id_act ?y \<in> set (dependentsOrEmpty Z) \<longrightarrow> Z = ?x"
    unfolding S by (simp add: exActivity_def dependentsOrEmpty_def)
  from c have l: "list_all (\<lambda>act. categoryResolves exDefined (category act))
      (sudsActivitiesOf ''s1'' [?x, ?y, ?z])"
    by (simp only: list_all_iff)
  from getDisplayActivities_nests_first_dependent [OF d c x1 x2 x3 f o] d l x1 x2 x3 f
  show ?thesis by blast
qed

text \<open>
  Claim C4 as stated fails when \<open>x\<close> has another dependent that the comparator puts
  first: \<open>z\<close> stands between \<open>x\<close> and \<open>y\<close>.
\<close>

theorem dependent_not_adjacent_counterexample:
  "getDisplayActivities ''s1''
     [exActivity ''x'' ''Vegetation'' ''Prune'' True [''y'', ''z''],
      exActivity ''y'' ''Cleaning'' ''Inspect'' True [],
      exActivity ''z'' ''Cleaning'' ''Sweep'' True []] exCategories exDefined =
   Inr [(exActivity ''x'' ''Vegetation'' ''Prune'' True [''y'', ''z''], False),
        (exActivity ''z'' ''Cleaning'' ''Sweep'' True [], True),
        (exActivity ''y'' ''Cleaning'' ''Inspect'' True [], True)]"
  by (simp add: ex_defs)




section \<open>The reorder protocol\<close>

text \<open>
  Claim C6, as the code has it. Moving the first element up, or the last element down (its
  id occurring nowhere earlier in the sequence), builds no batch and leaves the state as it
  is. For a sequence \<open>[A, B, C]\<close> with stored orders 0, 1, 2, moving \<open>B\<close> up gives
  the new sequence \<open>[B, A, C]\<close> and the batch that writes order 0 for \<open>B\<close> and
  order 1 for \<open>A\<close>, with no write for \<open>C\<close>. The handler commits exactly this
  batch: afterwards the stored document of \<open>B\<close> has order 0 and that of \<open>A\<close>
  order 1, and every other document and the rest of the state are as before. The later copy
  of the handler does the same for every role except the reader's, for which it returns at
  once, with no batch and no change.
\<close>

theorem handleMoveSudsType_boundaries_and_swap:
  "handleMoveSudsType_batch (id_suds s) ''up'' (s # rest) = None \<and>
   handleMoveSudsType rejection (id_suds s) ''up'' (s # rest) a = a \<and>
   (id_suds t \<notin> id_suds ` set front \<longrightarrow>
      handleMoveSudsType_batch (id_suds t) ''down'' (front @ [t]) = None \<and>
      handleMoveSudsType rejection (id_suds t) ''down'' (front @ [t]) a = a) \<and>
   (id_suds A \<noteq> id_suds B \<and> order A = Some 0 \<and> order B = Some 1 \<and> order C = Some 2 \<longrightarrow>
      handleMoveSudsType_batch (id_suds B) ''up'' [A, B, C] =
        Some ([B, A, C], [(id_suds B, 0), (id_suds A, 1)]) \<and>
      handleMoveSudsType None (id_suds B) ''up'' [A, B, C] a =
        a\<lparr>sudsTypesCollection :=
            applyOrderUpdate (id_suds A, 1)
              (applyOrderUpdate (id_suds B, 0) (sudsTypesCollection a))\<rparr> \<and>
      (sudsTypesCollection a (id_suds A) = Some A \<and> sudsTypesCollection a (id_suds B) = Some B \<longrightarrow>
         handleMoveSudsType None (id_suds B) ''up'' [A, B, C] a =
           a\<lparr>sudsTypesCollection :=
               (sudsTypesCollection a)(id_suds B \<mapsto> B\<lparr>order := Some 0\<rparr>,
                                       id_suds A \<mapsto> A\<lparr>order := Some 1\<rparr>)\<rparr>)) \<and>
   (userRole \<noteq> ''Lector'' \<longrightarrow>
      handleMoveSudsType_batch_guarded userRole sudsId direction currentSudsTypes =
        handleMoveSudsType_batch sudsId direction currentSudsTypes \<and>
      handleMoveSudsType_guarded rejection userRole sudsId direction currentSudsTypes a =
        handleMoveSudsType rejection sudsId direction currentSudsTypes a) \<and>
   handleMoveSudsType_batch_guarded ''Lector'' sudsId direction currentSudsTypes = None \<and>
   handleMoveSudsType_guarded rejection ''Lector'' sudsId direction currentSudsTypes a = a"
proof (intro conjI impI)
  show "handleMoveSudsType_batch (id_suds s) ''up'' (s # rest) = None"
    by (rule batch_first_up)
  then show "handleMoveSudsType rejection (id_suds s) ''up'' (s # rest) a = a"
    by (rule handleMoveSudsType_noop)
next
  assume "id_suds t \<notin> id_suds ` set front"
  then show b: "handleMoveSudsType_batch (id_suds t) ''down'' (front @ [t]) = None"
    by (rule batch_last_down)
  then show "handleMoveSudsType rejection (id_suds t) ''down'' (front @ [t]) a = a"
    by (rule handleMoveSudsType_noop)
next
  assume h: "id_suds A \<noteq> id_suds B \<and> order A = Some 0 \<and> order B = Some 1 \<and> order C = Some 2"
  then show "handleMoveSudsType_batch (id_suds B) ''up'' [A, B, C] =
        Some ([B, A, C], [(id_suds B, 0), (id_suds A, 1)])"
    by (simp add: batch_middle_up)
  from h show c: "handleMoveSudsType None (id_suds B) ''up'' [A, B, C] a =
        a\<lparr>sudsTypesCollection :=
            applyOrderUpdate (id_suds A, 1)
              (applyOrderUpdate (id_suds B, 0) (sudsTypesCollection a))\<rparr>"
    by (simp add: commit_middle_up)
  assume "sudsTypesCollection a (id_suds A) = Some A \<and> sudsTypesCollection a (id_suds B) = Some B"
  with h have "applyOrderUpdate (id_suds A, 1) (applyOrderUpdate (id_suds B, 0) (sudsTypesCollection a)) =
      (sudsTypesCollection a)(id_suds B \<mapsto> B\<lparr>order := Some 0\<rparr>, id_suds A \<mapsto> A\<lparr>order := Some 1\<rparr>)"
    by (intro stored_middle_up) simp_all
  with c show "handleMoveSudsType None (id_suds B) ''up'' [A, B, C] a =
           a\<lparr>sudsTypesCollection :=
               (sudsTypesCollection a)(id_suds B \<mapsto> B\<lparr>order := Some 0\<rparr>,
                                       id_suds A \<mapsto> A\<lparr>order := Some 1\<rparr>)\<rparr>"
    by simp
next
  assume "userRole \<noteq> ''Lector''"
  then show "handleMoveSudsType_batch_guarded userRole sudsId direction currentSudsTypes =
        handleMoveSudsType_batch sudsId direction currentSudsTypes"
    and "handleMoveSudsType_guarded rejection userRole sudsId direction currentSudsTypes a =
        handleMoveSudsType rejection sudsId direction currentSudsTypes a"
    by (simp_all add: handleMoveSudsType_batch_guarded_def handleMoveSudsType_guarded_def)
next
  show "handleMoveSudsType_batch_guarded ''Lector'' sudsId direction currentSudsTypes = None"
    by (simp add: handleMoveSudsType_batch_guarded_def)
  show "handleMoveSudsType_guarded rejection ''Lector'' sudsId direction currentSudsTypes a = a"
    by (simp add: handleMoveSudsType_guarded_def)
qed

text \<open>
  The theorem at the sequence \<open>[A, B, C]\<close> with stored orders 0, 1, 2 and a caller of role
  \<open>Master\<close>.
\<close>

theorem handleMoveSudsType_boundaries_and_swap_witness:
  "handleMoveSudsType_batch ''A'' ''up'' [sA, sB, sC] = None \<and>
   handleMoveSudsType None ''A'' ''up'' [sA, sB, sC] exApp = exApp \<and>
   id_suds sC \<notin> id_suds ` set [sA, sB] \<and>
   handleMoveSudsType_batch ''C'' ''down'' [sA, sB, sC] = None \<and>
   handleMoveSudsType None ''C'' ''down'' [sA, sB, sC] exApp = exApp \<and>
   id_suds sA \<noteq> id_suds sB \<and> order sA = Some 0 \<and> order sB = Some 1 \<and> order sC = Some 2 \<and>
   sudsTypesCollection exApp (id_suds sA) = Some sA \<and>
   sudsTypesCollection exApp (id_suds sB) = Some sB \<and>
   handleMoveSudsType_batch ''B'' ''up'' [sA, sB, sC] = Some ([sB, sA, sC], [(''B'', 0), (''A'', 1)]) \<and>
   sudsTypesCollection (handleMoveSudsType None ''B'' ''up'' [sA, sB, sC] exApp) =
     [''A'' \<mapsto> \<lparr>id_suds = ''A'', order = Some 1\<rparr>, ''B'' \<mapsto> \<lparr>id_suds = ''B'', order = Some 0\<rparr>,
      ''C'' \<mapsto> \<lparr>id_suds = ''C'', order = Some 2\<rparr>] \<and>
   ''Master'' \<noteq> ''Lector'' \<and>
   handleMoveSudsType_guarded None ''Master'' ''B'' ''up'' [sA, sB, sC] exApp =
     handleMoveSudsType None ''B'' ''up'' [sA, sB, sC] exApp"
proof -
  have h: "id_suds sC \<notin> id_suds ` set [sA, sB]" "id_suds sA \<noteq> id_suds sB"
    "order sA = Some 0" "order sB = Some 1" "order sC = Some 2"
    "id_suds sA = ''A''" "id_suds sB = ''B''" "id_suds sC = ''C''"
    "sudsTypesCollection exApp (id_suds sA) = Some sA"
    "sudsTypesCollection exApp (id_suds sB) = Some sB"
    "''Master'' \<noteq> ''Lector''"
    by (simp_all add: sA_def sB_def sC_def exApp_def)
  note t = handleMoveSudsType_boundaries_and_swap [where s = sA and rest = "[sB, sC]" and rejection = None and a = exApp and t = sC
      and front = "[sA, sB]" and A = sA and B = sB and C = sC and userRole = "''Master''"
      and sudsId = "''B''" and direction = "''up''" and currentSudsTypes = "[sA, sB, sC]"]
  from t h have 1: "handleMoveSudsType_batch ''A'' ''up'' [sA, sB, sC] = None"
    and 2: "handleMoveSudsType None ''A'' ''up'' [sA, sB, sC] exApp = exApp"
    and 3: "handleMoveSudsType_batch ''C'' ''down'' [sA, sB, sC] = None"
    and 4: "handleMoveSudsType None ''C'' ''down'' [sA, sB, sC] exApp = exApp"
    and 5: "handleMoveSudsType_batch ''B'' ''up'' [sA, sB, sC] = Some ([sB, sA, sC], [(''B'', 0), (''A'', 1)])"
    and 6: "handleMoveSudsType None ''B'' ''up'' [sA, sB, sC] exApp =
           exApp\<lparr>sudsTypesCollection :=
               (sudsTypesCollection exApp)(''B'' \<mapsto> sB\<lparr>order := Some 0\<rparr>,
                                           ''A'' \<mapsto> sA\<lparr>order := Some 1\<rparr>)\<rparr>"
    and 7: "handleMoveSudsType_guarded None ''Master'' ''B'' ''up'' [sA, sB, sC] exApp =
     handleMoveSudsType None ''B'' ''up'' [sA, sB, sC] exApp"
    by (simp_all add: applyOrderUpdate_def)
  have 8: "sudsTypesCollection (handleMoveSudsType None ''B'' ''up'' [sA, sB, sC] exApp) =
     [''A'' \<mapsto> \<lparr>id_suds = ''A'', order = Some 1\<rparr>, ''B'' \<mapsto> \<lparr>id_suds = ''B'', order = Some 0\<rparr>,
      ''C'' \<mapsto> \<lparr>id_suds = ''C'', order = Some 2\<rparr>]"
    unfolding 6 by (auto simp: exApp_def sA_def sB_def sC_def fun_eq_iff)
  from 1 2 3 4 5 7 8 h show ?thesis by simp
qed

text \<open>
  Claim C6 as stated fails for the later copy of the handler: for a reader, moving
  \<open>B\<close> up in \<open>[A, B, C]\<close> builds no batch, and the stored order of \<open>B\<close> stays 1.
\<close>

theorem reader_move_persists_nothing_counterexample:
  "order sA = Some 0 \<and> order sB = Some 1 \<and> order sC = Some 2 \<and>
   sudsTypesCollection exApp ''B'' = Some sB \<and>
   handleMoveSudsType_batch_guarded ''Lector'' ''B'' ''up'' [sA, sB, sC] = None \<and>
   handleMoveSudsType_guarded None ''Lector'' ''B'' ''up'' [sA, sB, sC] exApp = exApp"
  by (simp add: handleMoveSudsType_batch_guarded_def handleMoveSudsType_guarded_def
      sA_def sB_def sC_def exApp_def)

text \<open>
  Claim C10. With an id that is not in the sequence, \<open>handleMoveSudsType\<close> returns at
  its first check for either direction: no batch is built (with or without the role guard of
  the later copy) and the state is unchanged.
\<close>

theorem handleMoveSudsType_absent_id_returns:
  "sudsId \<notin> id_suds ` set currentSudsTypes \<Longrightarrow>
     handleMoveSudsType_batch sudsId direction currentSudsTypes = None \<and>
     handleMoveSudsType_batch_guarded userRole sudsId direction currentSudsTypes = None \<and>
     handleMoveSudsType rejection sudsId direction currentSudsTypes a = a"
  by (simp add: batch_absent handleMoveSudsType_noop handleMoveSudsType_batch_guarded_def)

text \<open>
  The theorem at the id \<open>Z\<close>, which is not in \<open>[A, B, C]\<close>.
\<close>

theorem handleMoveSudsType_absent_id_returns_witness:
  "''Z'' \<notin> id_suds ` set [sA, sB, sC] \<and>
   handleMoveSudsType_batch ''Z'' ''down'' [sA, sB, sC] = None \<and>
   handleMoveSudsType_batch_guarded ''Editor'' ''Z'' ''down'' [sA, sB, sC] = None \<and>
   handleMoveSudsType None ''Z'' ''down'' [sA, sB, sC] exApp = exApp"
proof -
  have h: "''Z'' \<notin> id_suds ` set [sA, sB, sC]" by (simp add: sA_def sB_def sC_def)
  from handleMoveSudsType_absent_id_returns [OF h, of "''down''" "''Editor''" None exApp] h
  show ?thesis by simp
qed

text \<open>
  Claim C8. When the persistence layer rejects the single batch or write that a reorder
  handler submits, the state after the call is the state before it except for the modal,
  which carries the error message: the stored documents and the in-memory copies are
  untouched.
\<close>

theorem rejected_write_changes_nothing:
  "(handleMoveSudsType_batch sudsId direction currentSudsTypes = Some (newSudsTypesOrder, batch) \<longrightarrow>
      handleMoveSudsType (Some message) sudsId direction currentSudsTypes a =
        a\<lparr>modalMessage := Some (''Error al mover el tipo de SUDS: '' @ message)\<rparr>) \<and>
   (handleMoveActivityColumn_write cat name direction currentDefinedActivityNames = Inr (Some updated) \<longrightarrow>
      handleMoveActivityColumn (Some message) cat name direction currentDefinedActivityNames a =
        Inr (a\<lparr>modalMessage := Some (''Error al mover la actividad: '' @ message)\<rparr>)) \<and>
   (handleMoveCategory_write categoryToMove direction (categoriesState a) = Some newCategories \<longrightarrow>
      handleMoveCategory (Some message) categoryToMove direction a =
        a\<lparr>modalMessage := Some (''Error al mover la categor'' @ [CHR 0xC3, CHR 0xAD] @ ''a: '' @ message)\<rparr>)"
  by (simp add: handleMoveSudsType_def handleMoveActivityColumn_def handleMoveCategory_def
      executeBatch_def)

text \<open>
  The theorem at a rejected move of \<open>B\<close> up in \<open>[A, B, C]\<close>.
\<close>

theorem rejected_write_changes_nothing_witness:
  "handleMoveSudsType_batch ''B'' ''up'' [sA, sB, sC] = Some ([sB, sA, sC], [(''B'', 0), (''A'', 1)]) \<and>
   handleMoveSudsType (Some ''unavailable'') ''B'' ''up'' [sA, sB, sC] exApp =
     exApp\<lparr>modalMessage := Some ''Error al mover el tipo de SUDS: unavailable''\<rparr> \<and>
   sudsTypesCollection (handleMoveSudsType (Some ''unavailable'') ''B'' ''up'' [sA, sB, sC] exApp) =
     [''A'' \<mapsto> sA, ''B'' \<mapsto> sB, ''C'' \<mapsto> sC]"
proof -
  have b: "handleMoveSudsType_batch ''B'' ''up'' [sA, sB, sC] = Some ([sB, sA, sC], [(''B'', 0), (''A'', 1)])"
    by (simp add: handleMoveSudsType_batch_def sA_def sB_def sC_def)
  from rejected_write_changes_nothing [of "''B''" "''up''" "[sA, sB, sC]" "[sB, sA, sC]"
      "[(''B'', 0), (''A'', 1)]" "''unavailable''" exApp] b
  have "handleMoveSudsType (Some ''unavailable'') ''B'' ''up'' [sA, sB, sC] exApp =
     exApp\<lparr>modalMessage := Some ''Error al mover el tipo de SUDS: unavailable''\<rparr>"
    by simp
  with b show ?thesis by (simp add: exApp_def)
qed




section \<open>Saving dependencies\<close>

text \<open>
  Claim C9 at a failing input. The selected dependent \<open>s1-Cleaning-Inspect\<close> has no
  record. The batch updates the primary record and creates a record with
  \<open>applies = true\<close>, but under a generated id: after the commit the id stored in
  \<open>dependentActivities\<close> of the primary record still refers to no record.
\<close>

theorem saved_dependency_id_refers_to_no_record:
  "find (\<lambda>act. id_act act = ''s1-Cleaning-Inspect'') [exPrimary] = None \<and>
   handleSaveDependencies_batch (\<lambda>n. ''auto'') (Some exCurrent) [''s1-Cleaning-Inspect''] [exPrimary] =
     Some [UpdateDependentActivities ''p1'' [''s1-Cleaning-Inspect''],
           SetNew \<lparr>id_act = ''auto'', sudsTypeId = ''s1'', category = ''Cleaning'',
                    activityName = ''Inspect'', applies = True, dependentActivities = Some [],
                    isDependent = None\<rparr>] \<and>
   map_option dependentActivities
     (fst (handleSaveDependencies None (\<lambda>n. ''auto'') (Some exCurrent) [''s1-Cleaning-Inspect'']
             [exPrimary] [''p1'' \<mapsto> exPrimary]) ''p1'') = Some (Some [''s1-Cleaning-Inspect'']) \<and>
   fst (handleSaveDependencies None (\<lambda>n. ''auto'') (Some exCurrent) [''s1-Cleaning-Inspect'']
          [exPrimary] [''p1'' \<mapsto> exPrimary]) ''s1-Cleaning-Inspect'' = None \<and>
   handleSaveDependencies_batch (\<lambda>n. ''auto'') (Some exCurrent) [''d1'']
       [exPrimary, exActivity ''d1'' ''Cleaning'' ''Inspect'' False []] =
     Some [UpdateDependentActivities ''p1'' [''d1''], UpdateApplies ''d1''] \<and>
   map_option applies
     (fst (handleSaveDependencies None (\<lambda>n. ''auto'') (Some exCurrent) [''d1'']
             [exPrimary, exActivity ''d1'' ''Cleaning'' ''Inspect'' False []]
             [''p1'' \<mapsto> exPrimary, ''d1'' \<mapsto> exActivity ''d1'' ''Cleaning'' ''Inspect'' False []])
        ''d1'') = Some True"
  by (simp add: handleSaveDependencies_def handleSaveDependencies_batch_def exCurrent_def
      exPrimary_def exActivity_def executeBatch_def applyWrite_def)

end
